theory Spec2Isabelle
  imports Main "HOL-Library.AList"
begin

section \<open>The session multiplexer of vexSHARE\<close>

text \<open>
  A shallow embedding of \<^verbatim>\<open>internal/session/session.go\<close>. One \<^verbatim>\<open>Session\<close> owns a
  child process on a pseudo-terminal and a set of websocket clients.

  \<^item> Go strings and byte slices are \<open>string\<close>: a list of 8-bit characters.
  \<^item> The map \<^verbatim>\<open>clients map[string]*Client\<close> is an association list with distinct keys,
    read with \<open>map_of\<close>, written with \<open>AList.update\<close>, \<open>AList.delete\<close>. The order of
    \<^verbatim>\<open>range\<close> over a Go map is not specified: where the code stops at the first entry
    the model takes the index of that entry as an argument, and a theorem holds for every
    index.
  \<^item> A \<^verbatim>\<open>*websocket.Conn\<close> is a handle (a number). What the session does to connections,
    to the pseudo-terminal, to the child process, to the \<^verbatim>\<open>done\<close> channel and to the
    \<^verbatim>\<open>OnClose\<close> callback is recorded, call by call and in program order, in the field
    \<open>trace\<close>. Log lines are not recorded.
  \<^item> A \<^verbatim>\<open>time.Time\<close> is an instant in nanoseconds and a \<^verbatim>\<open>time.Duration\<close> a number of
    nanoseconds, both \<open>int\<close>; \<^verbatim>\<open>time.Now()\<close> is an argument \<open>now\<close>.
  \<^item> Every exported method and every iteration of a goroutine's loop is one function from
    state to state: the calls are taken one after the other, each as a whole. The locks
    (\<^verbatim>\<open>mu\<close>, \<^verbatim>\<open>activeMu\<close>, the mutex of a client) have no part in such a run.
    \<^verbatim>\<open>AddClient\<close>, which writes to the new client after it has released \<^verbatim>\<open>mu\<close>, is also
    given with its steps apart and the other goroutines running in between.
\<close>

subsection \<open>Messages\<close>

text \<open>\<^verbatim>\<open>wsMessage\<close>: the envelope. \<open>Data\<close> is the \<^verbatim>\<open>json.RawMessage\<close>, the raw JSON text
  of the payload; the empty text is the absent field (\<^verbatim>\<open>omitempty\<close>).\<close>

record wsMessage =
  Type :: string
  Data :: string

text \<open>\<^verbatim>\<open>resizeMsg\<close>: columns and rows, both \<^verbatim>\<open>uint16\<close>.\<close>

record resizeMsg =
  Cols :: nat
  Rows :: nat

text \<open>A websocket frame the session writes: a text frame that carries the JSON encoding of an
  envelope (\<^verbatim>\<open>WriteJSON(msg)\<close>, or \<^verbatim>\<open>WriteMessage(TextMessage, json.Marshal(msg))\<close>), or a
  close frame with its status code and reason.\<close>

datatype frame = TextMessage wsMessage | CloseMessage nat string

datatype event =
    ConnWrite nat frame
  | ConnClose nat
  | PtmxWrite string
  | PtmxSetsize nat nat
  | PtmxClose
  | ProcessKill
  | ProcessWait
  | CloseDone
  | OnCloseCall

subsection \<open>Client and Session\<close>

record Client =
  ID :: string
  Conn :: nat
  IsController :: bool

datatype fd_state = Open | Closed

datatype process = Running | Reaped

text \<open>The fields of \<^verbatim>\<open>Session\<close>. \<open>ptmx\<close> is the state of the master file, \<open>cmd\<close> the state
  of the child, \<open>done_ch\<close> says whether the channel \<^verbatim>\<open>done\<close> is closed, \<open>closeOnce\<close> whether
  the \<^verbatim>\<open>sync.Once\<close> has run, \<open>onClose\<close> whether the callback is not nil.\<close>

record Session =
  cmd :: process
  ptmx :: fd_state
  clients :: "(string \<times> Client) list"
  sharedInput :: bool
  idleTimeout :: int
  lastActive :: int
  done_ch :: bool
  closeOnce :: bool
  onClose :: bool
  trace :: "event list"

record Config =
  Command :: string
  SharedInput :: bool
  IdleTimeout :: int
  OnClose :: bool

datatype error = PtyUnsupported | StartPty

text \<open>\<^verbatim>\<open>New\<close>. The operating system's answers are arguments: whether \<^verbatim>\<open>runtime.GOOS\<close> is
  windows, whether \<^verbatim>\<open>pty.Start\<close> succeeds, and the clock. The command only chooses the
  program that is started. The two goroutines \<^verbatim>\<open>New\<close> starts are \<open>readPTY\<close> and
  \<open>idleChecker\<close> below.\<close>

definition New :: "Config \<Rightarrow> bool \<Rightarrow> bool \<Rightarrow> int \<Rightarrow> error + Session" where
  "New cfg windows started now =
     (if windows then Inl PtyUnsupported
      else if \<not> started then Inl StartPty
      else Inr \<lparr>cmd = Running, ptmx = Open, clients = [],
                sharedInput = SharedInput cfg, idleTimeout = IdleTimeout cfg,
                lastActive = now, done_ch = False, closeOnce = False,
                onClose = OnClose cfg, trace = []\<rparr>)"

definition emit :: "event list \<Rightarrow> Session \<Rightarrow> Session" where
  "emit evs s = s\<lparr>trace := trace s @ evs\<rparr>"

subsection \<open>Formatting\<close>

text \<open>\<^verbatim>\<open>%d\<close> of a length: the decimal digits.\<close>

definition digit :: "nat \<Rightarrow> char" where
  "digit n = ''0123456789'' ! n"

fun fmt_d :: "nat \<Rightarrow> string" where
  "fmt_d n = (if n < 10 then [digit n] else fmt_d (n div 10) @ [digit (n mod 10)])"

text \<open>\<^verbatim>\<open>%v\<close> of a bool.\<close>

definition fmt_v :: "bool \<Rightarrow> string" where
  "fmt_v b = (if b then ''true'' else ''false'')"

text \<open>\<^verbatim>\<open>%q\<close> of a string: the string in double quotes. The code formats only the two
  constants \<open>''viewer''\<close> and \<open>''controller''\<close>, which hold nothing that \<^verbatim>\<open>%q\<close> escapes.\<close>

definition fmt_q :: "string \<Rightarrow> string" where
  "fmt_q r = [CHR 0x22] @ r @ [CHR 0x22]"

definition role_data :: "string \<Rightarrow> bool \<Rightarrow> string" where
  \<open>role_data r shared = ''{"role":'' @ fmt_q r @ '',"sharedInput":'' @ fmt_v shared @ ''}''\<close>

definition count_data :: "nat \<Rightarrow> string" where
  \<open>count_data n = ''{"count":'' @ fmt_d n @ ''}''\<close>

subsection \<open>UTF-8 (Go's \<^verbatim>\<open>unicode/utf8\<close>)\<close>

text \<open>A rune is a code point. \<^verbatim>\<open>utf8.DecodeRuneInString\<close> returns the first rune of a
  string and its width in bytes, and \<open>(RuneError, 1)\<close> for a byte that starts no valid
  encoding (\<open>(RuneError, 0)\<close> for the empty string). The second byte of an encoding has
  the range \<^verbatim>\<open>acceptRanges\<close> gives for the first byte, so that overlong forms, surrogates
  and code points above \<open>0x10FFFF\<close> are refused. Masks and shifts are written with
  \<open>mod\<close>, \<open>div\<close> and \<open>*\<close>.\<close>

type_synonym rune = nat

definition RuneError :: rune where
  "RuneError = 0xFFFD"

definition UTFMax :: nat where
  "UTFMax = 4"

definition rune_size :: "nat \<Rightarrow> nat" where
  "rune_size s0 = (if s0 < 0xE0 then 2 else if s0 < 0xF0 then 3 else 4)"

definition accept_lo :: "nat \<Rightarrow> nat" where
  "accept_lo s0 = (if s0 = 0xE0 then 0xA0 else if s0 = 0xF0 then 0x90 else 0x80)"

definition accept_hi :: "nat \<Rightarrow> nat" where
  "accept_hi s0 = (if s0 = 0xED then 0x9F else if s0 = 0xF4 then 0x8F else 0xBF)"

definition DecodeRuneInString :: "string \<Rightarrow> rune \<times> nat" where
  "DecodeRuneInString s =
     (if length s < 1 then (RuneError, 0)
      else
        (let s0 = of_char (s ! 0) in
         if s0 < 0x80 then (s0, 1)
         else if s0 < 0xC2 \<or> 0xF4 < s0 then (RuneError, 1)
         else
           (let sz = rune_size s0 in
            if length s < sz then (RuneError, 1)
            else
              (let s1 = of_char (s ! 1) in
               if s1 < accept_lo s0 \<or> accept_hi s0 < s1 then (RuneError, 1)
               else if sz \<le> 2 then (s0 mod 32 * 64 + s1 mod 64, 2)
               else
                 (let s2 = of_char (s ! 2) in
                  if s2 < 0x80 \<or> 0xBF < s2 then (RuneError, 1)
                  else if sz \<le> 3 then (s0 mod 16 * 4096 + s1 mod 64 * 64 + s2 mod 64, 3)
                  else
                    (let s3 = of_char (s ! 3) in
                     if s3 < 0x80 \<or> 0xBF < s3 then (RuneError, 1)
                     else (s0 mod 8 * 262144 + s1 mod 64 * 4096 + s2 mod 64 * 64
                             + s3 mod 64, 4)))))))"

text \<open>A continuation byte of UTF-8.\<close>

definition cont :: "nat \<Rightarrow> bool" where
  "cont b = (0x80 \<le> b \<and> b \<le> 0xBF)"

text \<open>\<^verbatim>\<open>utf8.EncodeRune\<close>: a surrogate or a value above \<open>0x10FFFF\<close> is written as
  \<open>RuneError\<close>.\<close>

definition EncodeRune :: "rune \<Rightarrow> string" where
  "EncodeRune r =
     (if r < 0x80 then [char_of r]
      else if r < 0x800 then [char_of (0xC0 + r div 64), char_of (0x80 + r mod 64)]
      else if 0x10FFFF < r \<or> (0xD800 \<le> r \<and> r \<le> 0xDFFF) then [CHR 0xEF, CHR 0xBF, CHR 0xBD]
      else if r < 0x10000 then
        [char_of (0xE0 + r div 4096), char_of (0x80 + r div 64 mod 64),
         char_of (0x80 + r mod 64)]
      else
        [char_of (0xF0 + r div 262144), char_of (0x80 + r div 4096 mod 64),
         char_of (0x80 + r div 64 mod 64), char_of (0x80 + r mod 64)])"

lemma DecodeRuneInString_width:
  assumes "s \<noteq> []"
  shows "1 \<le> snd (DecodeRuneInString s) \<and> snd (DecodeRuneInString s) \<le> length s"
proof -
  have "1 \<le> length s"
    using assms by (cases s) auto
  then show ?thesis
    unfolding DecodeRuneInString_def Let_def rune_size_def by auto
qed

lemma DecodeRuneInString_shorter:
  assumes "s \<noteq> []" and "(c, n) = DecodeRuneInString s"
  shows "length s - n < length s"
proof -
  have "1 \<le> n"
    using DecodeRuneInString_width [OF assms(1)] assms(2) by (metis snd_conv)
  with assms(1) show ?thesis
    by (cases s) auto
qed

lemma DecodeRuneInString_take_shorter:
  assumes "s \<noteq> []" and "(c, n) = DecodeRuneInString (take UTFMax s)"
  shows "length s - n < length s"
proof -
  have "take UTFMax s \<noteq> []"
    using assms(1) by (simp add: UTFMax_def)
  then have "1 \<le> n"
    using DecodeRuneInString_width [of "take UTFMax s"] assms(2) by (metis snd_conv)
  with assms(1) show ?thesis
    by (cases s) auto
qed

text \<open>\<^verbatim>\<open>utf8.ValidString\<close>.\<close>

function ValidString :: "string \<Rightarrow> bool" where
  "ValidString s =
     (if s = [] then True
      else
        (let (c, size) = DecodeRuneInString s in
         if c = RuneError \<and> size = 1 then False else ValidString (drop size s)))"
  by pat_completeness auto
termination
  by (relation "measure length") (auto simp: DecodeRuneInString_shorter)

declare ValidString.simps [simp del]

subsection \<open>JSON strings (Go's \<^verbatim>\<open>encoding/json\<close>)\<close>

text \<open>\<^verbatim>\<open>json.Marshal\<close> of a string, which is \<^verbatim>\<open>appendString\<close> with HTML escaping on: the
  bytes between two double quotes, where a quote and a backslash get a backslash, the
  control characters, \<open><\<close>, \<open>>\<close> and \<open>&\<close> are escaped, a byte that starts no valid UTF-8
  encoding becomes the six characters of the escape of U+FFFD, U+2028 and U+2029 are
  escaped, and every other byte is copied. The Go loop copies runs of plain bytes at
  once; the model copies them one encoding at a time. (Backspace and form feed get the
  two-character escapes, as current Go writes them; older releases wrote the six-character
  escapes of U+0008 and U+000C, which decode to the same bytes.)\<close>

definition htmlSafeSet :: "nat \<Rightarrow> bool" where
  "htmlSafeSet b = (0x20 \<le> b \<and> b < 0x80 \<and> b \<notin> {0x22, 0x26, 0x3C, 0x3E, 0x5C})"

definition hex :: string where
  "hex = ''0123456789abcdef''"

definition escape_byte :: "char \<Rightarrow> string" where
  "escape_byte b =
     (if b = CHR 0x5C \<or> b = CHR 0x22 then [CHR 0x5C, b]
      else if b = CHR 0x08 then [CHR 0x5C, CHR ''b'']
      else if b = CHR 0x0C then [CHR 0x5C, CHR ''f'']
      else if b = CHR 0x0A then [CHR 0x5C, CHR ''n'']
      else if b = CHR 0x0D then [CHR 0x5C, CHR ''r'']
      else if b = CHR 0x09 then [CHR 0x5C, CHR ''t'']
      else [CHR 0x5C, CHR ''u'', CHR ''0'', CHR ''0'',
            hex ! (of_char b div 16), hex ! (of_char b mod 16)])"

function appendString :: "string \<Rightarrow> string" where
  "appendString src =
     (if src = [] then []
      else if (of_char (hd src) :: nat) < 0x80 then
        (if htmlSafeSet (of_char (hd src)) then [hd src] else escape_byte (hd src))
          @ appendString (tl src)
      else
        (let (c, size) = DecodeRuneInString (take UTFMax src) in
         if c = RuneError \<and> size = 1 then
           [CHR 0x5C, CHR ''u'', CHR ''f'', CHR ''f'', CHR ''f'', CHR ''d'']
             @ appendString (drop size src)
         else if c = 0x2028 \<or> c = 0x2029 then
           [CHR 0x5C, CHR ''u'', CHR ''2'', CHR ''0'', CHR ''2'', hex ! (c mod 16)]
             @ appendString (drop size src)
         else take size src @ appendString (drop size src)))"
  by pat_completeness auto
termination
  by (relation "measure length")
    (auto simp: DecodeRuneInString_take_shorter neq_Nil_conv)

declare appendString.simps [simp del]

definition Marshal_string :: "string \<Rightarrow> string" where
  "Marshal_string s = [CHR 0x22] @ appendString s @ [CHR 0x22]"

text \<open>\<^verbatim>\<open>json.Unmarshal(data, &input)\<close> for \<open>input\<close> a fresh string variable; \<open>None\<close> is a
  returned error. The text is first checked to be one JSON value between optional white
  space. A string literal is unquoted: escapes are resolved (a surrogate pair gives one
  rune, a lone surrogate U+FFFD) and bytes that are not UTF-8 are replaced by U+FFFD. The
  literal \<open>null\<close> is no error and leaves the variable as it is, the empty string. Every
  other text is an error: a syntax error, or a value of another JSON type.\<close>

definition isSpace :: "char \<Rightarrow> bool" where
  "isSpace c = (c = CHR 0x20 \<or> c = CHR 0x09 \<or> c = CHR 0x0D \<or> c = CHR 0x0A)"

definition hexval :: "char \<Rightarrow> nat option" where
  "hexval c =
     (let n = of_char c in
      if 0x30 \<le> n \<and> n \<le> 0x39 then Some (n - 0x30)
      else if 0x61 \<le> n \<and> n \<le> 0x66 then Some (n - 0x61 + 10)
      else if 0x41 \<le> n \<and> n \<le> 0x46 then Some (n - 0x41 + 10)
      else None)"

text \<open>\<^verbatim>\<open>getu4\<close>: the value of \<open>\\uXXXX\<close> at the head of a text.\<close>

definition getu4 :: "string \<Rightarrow> rune option" where
  "getu4 s =
     (case s of
        b # u # h1 # h2 # h3 # h4 # _ \<Rightarrow>
          (if b = CHR 0x5C \<and> u = CHR ''u'' then
             (case (hexval h1, hexval h2, hexval h3, hexval h4) of
                (Some a, Some b, Some c, Some d) \<Rightarrow> Some (a * 4096 + b * 256 + c * 16 + d)
              | _ \<Rightarrow> None)
           else None)
      | _ \<Rightarrow> None)"

definition IsSurrogate :: "rune \<Rightarrow> bool" where
  "IsSurrogate r = (0xD800 \<le> r \<and> r < 0xE000)"

text \<open>\<^verbatim>\<open>utf16.DecodeRune\<close>: the rune of a surrogate pair, U+FFFD when it is not one.\<close>

definition utf16_DecodeRune :: "rune \<Rightarrow> rune \<Rightarrow> rune" where
  "utf16_DecodeRune r1 r2 =
     (if 0xD800 \<le> r1 \<and> r1 < 0xDC00 \<and> 0xDC00 \<le> r2 \<and> r2 < 0xE000
      then (r1 - 0xD800) * 1024 + (r2 - 0xDC00) + 0x10000
      else RuneError)"

definition simple_escape :: "char \<Rightarrow> char option" where
  "simple_escape e =
     (if e = CHR 0x22 \<or> e = CHR 0x5C \<or> e = CHR ''/'' then Some e
      else if e = CHR ''b'' then Some (CHR 0x08)
      else if e = CHR ''f'' then Some (CHR 0x0C)
      else if e = CHR ''n'' then Some (CHR 0x0A)
      else if e = CHR ''r'' then Some (CHR 0x0D)
      else if e = CHR ''t'' then Some (CHR 0x09)
      else None)"

text \<open>\<open>unquote\<close> reads the text after the opening quote up to the closing quote, which
  must be the last character.\<close>

function unquote :: "string \<Rightarrow> string option" where
  "unquote s =
     (if s = [] then None
      else if hd s = CHR 0x22 then (if tl s = [] then Some [] else None)
      else if hd s = CHR 0x5C then
        (if tl s = [] then None
         else if hd (tl s) = CHR ''u'' then
           (case getu4 s of
              None \<Rightarrow> None
            | Some rr \<Rightarrow>
                (if IsSurrogate rr then
                   (case getu4 (drop 6 s) of
                      None \<Rightarrow> map_option ((@) (EncodeRune RuneError)) (unquote (drop 6 s))
                    | Some rr1 \<Rightarrow>
                        (if utf16_DecodeRune rr rr1 \<noteq> RuneError then
                           map_option ((@) (EncodeRune (utf16_DecodeRune rr rr1)))
                             (unquote (drop 12 s))
                         else map_option ((@) (EncodeRune RuneError)) (unquote (drop 6 s))))
                 else map_option ((@) (EncodeRune rr)) (unquote (drop 6 s))))
         else
           (case simple_escape (hd (tl s)) of
              None \<Rightarrow> None
            | Some b \<Rightarrow> map_option ((#) b) (unquote (drop 2 s))))
      else if (of_char (hd s) :: nat) < 0x20 then None
      else if (of_char (hd s) :: nat) < 0x80 then map_option ((#) (hd s)) (unquote (tl s))
      else
        (let (rr, size) = DecodeRuneInString s in
         map_option ((@) (EncodeRune rr)) (unquote (drop size s))))"
  by pat_completeness auto
termination
  by (relation "measure length")
    (auto simp: DecodeRuneInString_shorter neq_Nil_conv)

declare unquote.simps [simp del]

definition trim :: "string \<Rightarrow> string" where
  "trim s = rev (dropWhile isSpace (rev (dropWhile isSpace s)))"

definition Unmarshal_string :: "string \<Rightarrow> string option" where
  "Unmarshal_string data =
     (let t = trim data in
      if t = ''null'' then Some []
      else if t \<noteq> [] \<and> hd t = CHR 0x22 then unquote (tl t)
      else None)"

subsection \<open>Adding and removing clients\<close>

text \<open>\<^verbatim>\<open>broadcastClientCount\<close>: the count is read, then every client is written to.\<close>

definition broadcastClientCount :: "Session \<Rightarrow> Session" where
  "broadcastClientCount s =
     (let count = length (clients s);
          msg = \<lparr>Type = ''clients'', Data = count_data count\<rparr>
      in emit (map (\<lambda>(i, c). ConnWrite (Conn c) (TextMessage msg)) (clients s)) s)"

text \<open>\<^verbatim>\<open>AddClient\<close> returns the new client; the reader goroutine it starts is \<open>readClient\<close>.
  This is the call when no other goroutine runs between its steps; \<open>AddClient_between\<close>
  below has the steps apart.\<close>

definition AddClient :: "string \<Rightarrow> nat \<Rightarrow> Session \<Rightarrow> Client \<times> Session" where
  "AddClient i conn s =
     (let isController = (length (clients s) = 0);
          c = \<lparr>ID = i, Conn = conn, IsController = isController\<rparr>;
          s1 = s\<lparr>clients := AList.update i c (clients s)\<rparr>;
          r = (if isController then ''controller'' else ''viewer'');
          s2 = emit [ConnWrite (Conn c)
                 (TextMessage \<lparr>Type = ''role'', Data = role_data r (sharedInput s1)\<rparr>)] s1
      in (c, broadcastClientCount s2))"

text \<open>\<^verbatim>\<open>RemoveClient\<close>. The loop over the map stops after its first entry: \<open>k\<close> chooses
  which entry the iteration yields first.\<close>

definition promote :: "nat \<Rightarrow> Session \<Rightarrow> Session" where
  \<open>promote k s =
     (let j = k mod length (clients s);
          (n, next) = clients s ! j;
          s1 = s\<lparr>clients := (clients s)[j := (n, next\<lparr>IsController := True\<rparr>)]\<rparr>
      in emit [ConnWrite (Conn next)
             (TextMessage \<lparr>Type = ''role'', Data = ''{"role":"controller"}''\<rparr>)] s1)\<close>

definition RemoveClient :: "nat \<Rightarrow> string \<Rightarrow> Session \<Rightarrow> Session" where
  "RemoveClient k i s =
     (case map_of (clients s) i of
        None \<Rightarrow> s
      | Some c \<Rightarrow>
          (let wasController = IsController c;
               s1 = s\<lparr>clients := AList.delete i (clients s)\<rparr>;
               s2 = (if wasController \<and> length (clients s1) > 0 then promote k s1 else s1)
           in broadcastClientCount (emit [ConnClose (Conn c)] s2)))"

definition ClientCount :: "Session \<Rightarrow> nat" where
  "ClientCount s = length (clients s)"

subsection \<open>Closing\<close>

text \<open>\<^verbatim>\<open>Close\<close>: the body runs under \<^verbatim>\<open>closeOnce\<close>. \<^verbatim>\<open>cmd.Process\<close> is never nil in a session
  that \<open>New\<close> returned, so the child is killed, then waited for.\<close>

definition Close :: "Session \<Rightarrow> Session" where
  "Close s =
     (if closeOnce s then s
      else
        (let s1 = emit [CloseDone] (s\<lparr>closeOnce := True, done_ch := True\<rparr>);
             s2 = emit (concat (map (\<lambda>(i, c).
                     [ConnWrite (Conn c) (CloseMessage 1000 ''session closed''),
                      ConnClose (Conn c)]) (clients s1))) (s1\<lparr>clients := []\<rparr>);
             s3 = emit [PtmxClose] (s2\<lparr>ptmx := Closed\<rparr>);
             s4 = emit [ProcessKill, ProcessWait] (s3\<lparr>cmd := Reaped\<rparr>)
         in if onClose s4 then emit [OnCloseCall] s4 else s4))"

definition Done :: "Session \<Rightarrow> bool" where
  "Done s = done_ch s"

subsection \<open>The goroutines\<close>

text \<open>\<^verbatim>\<open>broadcast\<close>: the data is marshalled as a JSON string, wrapped in an \<open>output\<close> envelope
  and written to every client. Marshalling a string returns no error.\<close>

definition broadcast :: "string \<Rightarrow> Session \<Rightarrow> Session" where
  "broadcast data s =
     (let encodedData = Marshal_string data;
          msg = \<lparr>Type = ''output'', Data = encodedData\<rparr>
      in emit (map (\<lambda>(i, c). ConnWrite (Conn c) (TextMessage msg)) (clients s)) s)"

definition touchActivity :: "int \<Rightarrow> Session \<Rightarrow> Session" where
  "touchActivity now s = s\<lparr>lastActive := now\<rparr>"

definition canWrite :: "Session \<Rightarrow> Client \<Rightarrow> bool" where
  "canWrite s c = (if sharedInput s then True else IsController c)"

text \<open>What a loop iteration does next: go round again, or return.\<close>

datatype outcome = Continue | Return

text \<open>One iteration of \<^verbatim>\<open>readPTY\<close>. \<open>r\<close> is what \<^verbatim>\<open>ptmx.Read\<close> gives: \<open>None\<close> for an error
  (end of file too), \<open>Some\<close> of the bytes read. Reading a closed file is an error.\<close>

definition readPTY_step :: "int \<Rightarrow> string option \<Rightarrow> Session \<Rightarrow> outcome \<times> Session" where
  "readPTY_step now r s =
     (case (if ptmx s = Closed then None else r) of
        None \<Rightarrow> (Return, Close s)
      | Some data \<Rightarrow> (Continue, broadcast data (touchActivity now s)))"

text \<open>\<^verbatim>\<open>readPTY\<close> over the results of the reads it makes, each with the clock of its
  iteration; when the list is used up the goroutine is waiting in \<^verbatim>\<open>Read\<close>.\<close>

fun readPTY :: "(int \<times> string option) list \<Rightarrow> Session \<Rightarrow> Session" where
  "readPTY [] s = s"
| "readPTY ((now, r) # rs) s =
     (case readPTY_step now r s of
        (Continue, s') \<Rightarrow> readPTY rs s'
      | (Return, s') \<Rightarrow> s')"

text \<open>What a reader gets from its connection: \<^verbatim>\<open>ReadMessage\<close> fails, or it gives a frame
  that \<^verbatim>\<open>json.Unmarshal\<close> refuses as an envelope, or a frame with its decoded envelope.\<close>

datatype inbound = ReadError | Invalid | Message wsMessage

text \<open>The \<^verbatim>\<open>switch\<close> of \<^verbatim>\<open>readClient\<close> on a decoded envelope. \<open>c\<close> is the reader's client
  object as it is when the message is handled. \<open>werr\<close> says whether the operating system
  refuses the write to an open master; a write to a closed master always fails. \<open>rz\<close> is
  the result of \<^verbatim>\<open>json.Unmarshal(msg.Data, &r)\<close> for the \<^verbatim>\<open>resizeMsg\<close> \<^verbatim>\<open>r\<close>, \<open>None\<close> for
  an error. \<open>PtmxWrite\<close> records the call of \<^verbatim>\<open>ptmx.Write\<close> with its argument.\<close>

definition readClient_message ::
  "int \<Rightarrow> bool \<Rightarrow> resizeMsg option \<Rightarrow> Client \<Rightarrow> wsMessage \<Rightarrow> Session \<Rightarrow> outcome \<times> Session" where
  "readClient_message now werr rz c msg s =
     (if Type msg = ''input'' then
        (if \<not> canWrite s c then (Continue, s)
         else
           (case Unmarshal_string (Data msg) of
              None \<Rightarrow> (Continue, s)
            | Some input \<Rightarrow>
                (let s1 = touchActivity now s;
                     s2 = emit [PtmxWrite input] s1
                 in if ptmx s2 = Closed \<or> werr then (Return, s2) else (Continue, s2))))
      else if Type msg = ''resize'' then
        (case rz of
           None \<Rightarrow> (Continue, s)
         | Some r \<Rightarrow> (Continue, emit [PtmxSetsize (Cols r) (Rows r)] s))
      else (Continue, s))"

definition readClient_step ::
  "int \<Rightarrow> bool \<Rightarrow> resizeMsg option \<Rightarrow> Client \<Rightarrow> inbound \<Rightarrow> Session \<Rightarrow> outcome \<times> Session" where
  "readClient_step now werr rz c m s =
     (case m of
        ReadError \<Rightarrow> (Return, s)
      | Invalid \<Rightarrow> (Continue, s)
      | Message msg \<Rightarrow> readClient_message now werr rz c msg s)"

text \<open>\<^verbatim>\<open>readClient\<close> over what the connection delivers, each frame with the clock, the
  write's fate and the resize payload of its iteration; after the last frame the read
  fails. \<^verbatim>\<open>RemoveClient\<close> is deferred: it runs whenever the loop returns.\<close>

fun readClient ::
  "nat \<Rightarrow> Client \<Rightarrow> (inbound \<times> int \<times> bool \<times> resizeMsg option) list \<Rightarrow> Session \<Rightarrow> Session" where
  "readClient k c [] s = RemoveClient k (ID c) s"
| "readClient k c ((m, now, werr, rz) # ms) s =
     (case readClient_step now werr rz c m s of
        (Continue, s') \<Rightarrow> readClient k c ms s'
      | (Return, s') \<Rightarrow> RemoveClient k (ID c) s')"

text \<open>\<^verbatim>\<open>idleChecker\<close>. The ticker's period is ten seconds. One tick at the instant \<open>now\<close>
  compares the idle time with the timeout.\<close>

definition Second :: int where
  "Second = 1000000000"

definition Millisecond :: int where
  "Millisecond = 1000000"

definition tick_period :: int where
  "tick_period = 10 * Second"

definition idleChecker_tick :: "int \<Rightarrow> Session \<Rightarrow> outcome \<times> Session" where
  "idleChecker_tick now s =
     (let idle = now - lastActive s
      in if idle > idleTimeout s then (Return, Close s) else (Continue, s))"

text \<open>The loop of \<^verbatim>\<open>idleChecker\<close> when nothing else happens, over the instants at which its
  ticks are handled: each is what the clock shows when \<^verbatim>\<open>time.Since\<close> reads it. When the
  list is used up the goroutine is waiting in \<^verbatim>\<open>select\<close>. It returns when \<^verbatim>\<open>done\<close> is
  closed (a tick taken with \<^verbatim>\<open>done\<close> closed would call \<open>Close\<close> to no effect).\<close>

fun idleChecker :: "int list \<Rightarrow> Session \<Rightarrow> Session" where
  "idleChecker [] s = s"
| "idleChecker (now # ticks) s =
     (if done_ch s then s
      else
        (case idleChecker_tick now s of
           (Return, s') \<Rightarrow> s'
         | (Continue, s') \<Rightarrow> idleChecker ticks s'))"

text \<open>The ticker is made in the goroutine, at an instant \<open>start\<close>. Its ticks are due one
  period after \<open>start\<close>, two periods after, and so on; a tick is handled when it is due or
  later, and a tick that finds the channel full is dropped. \<open>ticker start ticks\<close> says
  that the instants \<open>ticks\<close> can be those at which the ticks of such a ticker are handled.\<close>

fun ticker :: "int \<Rightarrow> int list \<Rightarrow> bool" where
  "ticker start [] = True"
| "ticker start (now # ticks) =
     (start + tick_period \<le> now \<and> ticker (start + tick_period) ticks)"

text \<open>\<^verbatim>\<open>New\<close> starts the idle checker only for a positive timeout.\<close>

definition idle_watch :: "int list \<Rightarrow> Session \<Rightarrow> Session" where
  "idle_watch ticks s = (if idleTimeout s > 0 then idleChecker ticks s else s)"

subsection \<open>Runs\<close>

text \<open>The operations on a session, each with what the environment decides for it:
  the two exported methods on clients, \<open>Close\<close>, one iteration of the terminal reader, one
  iteration of a client's reader (followed by the deferred \<open>RemoveClient\<close> when the
  iteration returns), and one tick of the idle checker.\<close>

datatype op =
    OpAddClient string nat
  | OpRemoveClient nat string
  | OpClose
  | OpReadPTY int "string option"
  | OpReadClient nat int bool "resizeMsg option" Client inbound
  | OpIdleTick int

fun step :: "op \<Rightarrow> Session \<Rightarrow> Session" where
  "step (OpAddClient i conn) s = snd (AddClient i conn s)"
| "step (OpRemoveClient k i) s = RemoveClient k i s"
| "step OpClose s = Close s"
| "step (OpReadPTY now r) s = snd (readPTY_step now r s)"
| "step (OpReadClient k now werr rz c m) s =
     (case readClient_step now werr rz c m s of
        (Continue, s') \<Rightarrow> s'
      | (Return, s') \<Rightarrow> RemoveClient k (ID c) s')"
| "step (OpIdleTick now) s = snd (idleChecker_tick now s)"

fun run :: "op list \<Rightarrow> Session \<Rightarrow> Session" where
  "run [] s = s"
| "run (o1 # os) s = run os (step o1 s)"

text \<open>The states a run goes through, the first one included.\<close>

fun states :: "op list \<Rightarrow> Session \<Rightarrow> Session list" where
  "states [] s = [s]"
| "states (o1 # os) s = s # states os (step o1 s)"

text \<open>A session as \<open>New\<close> returns it, for the examples: no shared input, no idle timeout,
  a callback, created at instant 0.\<close>

definition cfg0 :: Config where
  "cfg0 = \<lparr>Command = ''bash'', SharedInput = False, IdleTimeout = 0, OnClose = True\<rparr>"

definition session0 :: Session where
  "session0 = \<lparr>cmd = Running, ptmx = Open, clients = [], sharedInput = False,
     idleTimeout = 0, lastActive = 0, done_ch = False, closeOnce = False, onClose = True,
     trace = []\<rparr>"

subsection \<open>The steps of \<^verbatim>\<open>AddClient\<close>\<close>





subsection \<open>What was written to a connection\<close>

fun sent_to :: "nat \<Rightarrow> event list \<Rightarrow> frame list" where
  "sent_to conn [] = []"
| "sent_to conn (ConnWrite n f # evs) = (if n = conn then f # sent_to conn evs else sent_to conn evs)"
| "sent_to conn (_ # evs) = sent_to conn evs"

subsection \<open>Counting controllers\<close>

text \<open>The number of clients in the set whose \<^verbatim>\<open>IsController\<close> is true.\<close>

definition nctl :: "(string \<times> Client) list \<Rightarrow> nat" where
  "nctl xs = length (filter (\<lambda>(i, c). IsController c) xs)"

definition controllers :: "Session \<Rightarrow> nat" where
  "controllers s = nctl (clients s)"

text \<open>No \<open>AddClient\<close> of a run uses an id that is in the set when it is called.\<close>

fun fresh_ids :: "op list \<Rightarrow> Session \<Rightarrow> bool" where
  "fresh_ids [] s = True"
| "fresh_ids (OpAddClient i conn # os) s =
     (map_of (clients s) i = None \<and> fresh_ids os (step (OpAddClient i conn) s))"
| "fresh_ids (o1 # os) s = fresh_ids os (step o1 s)"

text \<open>The two invariants of the client set: the keys are distinct and at most one client
  is the controller; the keys are distinct and a set that is not empty has one controller.\<close>

definition at_most_one :: "(string \<times> Client) list \<Rightarrow> bool" where
  "at_most_one xs = (distinct (map fst xs) \<and> nctl xs \<le> 1)"

definition exactly_one :: "(string \<times> Client) list \<Rightarrow> bool" where
  "exactly_one xs = (distinct (map fst xs) \<and> nctl xs = (if xs = [] then 0 else 1))"

subsection \<open>Observations\<close>

text \<open>The part of a session that only \<open>Close\<close> changes: the latch, the \<^verbatim>\<open>done\<close> channel, the
  master file and the child.\<close>

definition lifecycle :: "Session \<Rightarrow> bool \<times> bool \<times> fd_state \<times> process" where
  "lifecycle s = (closeOnce s, done_ch s, ptmx s, cmd s)"

text \<open>The events of closing: \<^verbatim>\<open>close(s.done)\<close> and the call of the callback.\<close>

fun closing :: "event \<Rightarrow> bool" where
  "closing CloseDone = True"
| "closing OnCloseCall = True"
| "closing _ = False"

text \<open>The connections a trace writes to, write by write.\<close>

fun written :: "event list \<Rightarrow> nat list" where
  "written [] = []"
| "written (ConnWrite n f # evs) = n # written evs"
| "written (_ # evs) = written evs"


text \<open>A session with three clients, for the examples: \<open>a\<close> came first.\<close>

definition session3 :: Session where
  "session3 = run [OpAddClient ''a'' 1, OpAddClient ''b'' 2, OpAddClient ''c'' 3] session0"

text \<open>\<open>quiet s s'\<close>: from \<open>s\<close> to \<open>s'\<close> the life cycle and the callback are the same and no
  closing event was added.\<close>

definition quiet :: "Session \<Rightarrow> Session \<Rightarrow> bool" where
  "quiet s s' = (lifecycle s' = lifecycle s \<and> onClose s' = onClose s \<and>
     filter closing (trace s') = filter closing (trace s))"

text \<open>What holds of closing in every state a session reaches.\<close>

definition close_inv :: "Session \<Rightarrow> bool" where
  "close_inv s =
     (filter closing (trace s) =
        (if closeOnce s then CloseDone # (if onClose s then [OnCloseCall] else []) else []) \<and>
      done_ch s = closeOnce s \<and>
      (closeOnce s \<longrightarrow> ptmx s = Closed \<and> cmd s = Reaped))"

text \<open>The connections of the clients in the set.\<close>

definition conns :: "Session \<Rightarrow> nat set" where
  "conns s = (\<lambda>(i, c). Conn c) ` set (clients s)"

text \<open>\<open>grows A s s'\<close>: the trace of \<open>s'\<close> extends the trace of \<open>s\<close>, by writes to connections of
  clients of \<open>s\<close> or to those in \<open>A\<close> only, and the clients of \<open>s'\<close> have such connections.\<close>

definition grows :: "nat set \<Rightarrow> Session \<Rightarrow> Session \<Rightarrow> bool" where
  "grows A s s' =
     (\<exists>evs. trace s' = trace s @ evs \<and> set (written evs) \<subseteq> conns s \<union> A \<and>
        conns s' \<subseteq> conns s \<union> A)"

text \<open>A session with an idle timeout of 50 ms, created at instant 0.\<close>

definition cfg50 :: Config where
  "cfg50 = \<lparr>Command = ''bash'', SharedInput = False, IdleTimeout = 50 * Millisecond,
     OnClose = False\<rparr>"

definition session50 :: Session where
  "session50 = \<lparr>cmd = Running, ptmx = Open, clients = [], sharedInput = False,
     idleTimeout = 50 * Millisecond, lastActive = 0, done_ch = False, closeOnce = False,
     onClose = False, trace = []\<rparr>"

text \<open>What a byte sequence becomes when every byte that starts no valid UTF-8 encoding is
  replaced by the encoding of U+FFFD.\<close>

function replace_invalid :: "string \<Rightarrow> string" where
  "replace_invalid s =
     (if s = [] then []
      else if DecodeRuneInString s = (RuneError, 1) then
        [CHR 0xEF, CHR 0xBF, CHR 0xBD] @ replace_invalid (tl s)
      else take (snd (DecodeRuneInString s)) s
             @ replace_invalid (drop (snd (DecodeRuneInString s)) s))"
  by pat_completeness auto
termination
proof (relation "measure length")
  fix s :: string
  assume "s \<noteq> []"
  then show "(tl s, s) \<in> measure length"
    by (cases s) auto
next
  fix s :: string
  assume ne: "s \<noteq> []"
  have "1 \<le> snd (DecodeRuneInString s)"
    using DecodeRuneInString_width [OF ne] by simp
  with ne show "(drop (snd (DecodeRuneInString s)) s, s) \<in> measure length"
    by (cases s) auto
qed simp

declare replace_invalid.simps [simp del]

subsection \<open>The receiving side\<close>

text \<open>Modelled from the spec: the decoding of an \<open>output\<close> message on the receiving side.
  The receiver is the browser client, whose code is not among the sources; the spec says
  that the data of the envelope is a JSON string and that the receiver decodes it. The
  model decodes the data as \<^verbatim>\<open>json.Unmarshal\<close> decodes a JSON string, and takes the bytes of
  the result in UTF-8.\<close>

definition receive_output :: "wsMessage \<Rightarrow> string option" where
  "receive_output msg = Unmarshal_string (Data msg)"

section \<open>Properties\<close>

lemma sent_to_append: "sent_to conn (xs @ ys) = sent_to conn xs @ sent_to conn ys"
  by (induction conn xs rule: sent_to.induct) auto

lemma New_session0: "New cfg0 False True 0 = Inr session0"
  by (simp add: New_def cfg0_def session0_def)

subsection \<open>One controller\<close>

lemma nctl_append [simp]: "nctl (xs @ ys) = nctl xs + nctl ys"
  by (simp add: nctl_def)

lemma nctl_Nil [simp]: "nctl [] = 0"
  by (simp add: nctl_def)

lemma nctl_Cons [simp]: "nctl ((i, c) # xs) = (if IsController c then 1 else 0) + nctl xs"
  by (simp add: nctl_def)

lemma update_fresh: "map_of xs k = None \<Longrightarrow> AList.update k v xs = xs @ [(k, v)]"
  by (induction xs) (auto split: if_splits)

lemma nctl_update_viewer:
  "\<not> IsController c \<Longrightarrow> nctl (AList.update k c xs) \<le> nctl xs"
  by (induction xs) (auto)

lemma nctl_delete:
  "distinct (map fst xs) \<Longrightarrow> map_of xs k = Some c \<Longrightarrow>
     nctl (AList.delete k xs) + (if IsController c then 1 else 0) = nctl xs"
proof (induction xs)
  case Nil
  then show ?case by simp
next
  case (Cons x xs)
  obtain i c' where x: "x = (i, c')" by (cases x)
  show ?case
  proof (cases "i = k")
    case True
    with Cons.prems x have "c' = c" and "k \<notin> fst ` set xs" by auto
    then have "AList.delete k xs = xs"
      by (simp add: delete_id)
    with True x \<open>c' = c\<close> show ?thesis by simp
  next
    case False
    with Cons x show ?thesis by simp
  qed
qed

lemma nctl_promote:
  assumes "j < length xs"
  shows "nctl (xs[j := (fst (xs ! j), (snd (xs ! j))\<lparr>IsController := True\<rparr>)])
           = nctl xs + (if IsController (snd (xs ! j)) then 0 else 1)"
  using assms
proof (induction xs arbitrary: j)
  case Nil
  then show ?case by simp
next
  case (Cons x xs)
  obtain i c where x: "x = (i, c)" by (cases x)
  show ?case
  proof (cases j)
    case 0
    with x show ?thesis by simp
  next
    case (Suc m)
    with Cons x show ?thesis by simp
  qed
qed

lemma nctl_zero_nth: "nctl xs = 0 \<Longrightarrow> j < length xs \<Longrightarrow> \<not> IsController (snd (xs ! j))"
  by (induction xs arbitrary: j) (auto simp: nth_Cons split: nat.splits if_splits)

lemma keys_promote:
  "j < length xs \<Longrightarrow> map fst (xs[j := (fst (xs ! j), v)]) = map fst xs"
  by (simp add: map_update list_update_same_conv)

lemma clients_emit [simp]: "clients (emit evs s) = clients s"
  by (simp add: emit_def)

lemma clients_broadcastClientCount [simp]: "clients (broadcastClientCount s) = clients s"
  by (simp add: broadcastClientCount_def Let_def)

lemma clients_broadcast [simp]: "clients (broadcast d s) = clients s"
  by (simp add: broadcast_def Let_def)

lemma clients_touchActivity [simp]: "clients (touchActivity now s) = clients s"
  by (simp add: touchActivity_def)

lemma clients_AddClient:
  "clients (snd (AddClient i conn s)) =
     AList.update i \<lparr>ID = i, Conn = conn, IsController = (clients s = [])\<rparr> (clients s)"
  by (simp add: AddClient_def Let_def)

lemma clients_promote:
  "clients (promote k s) =
     (clients s)[k mod length (clients s) :=
        (fst (clients s ! (k mod length (clients s))),
         (snd (clients s ! (k mod length (clients s))))\<lparr>IsController := True\<rparr>)]"
  by (simp add: promote_def Let_def split: prod.splits)

lemma clients_RemoveClient:
  "clients (RemoveClient k i s) =
     (case map_of (clients s) i of
        None \<Rightarrow> clients s
      | Some c \<Rightarrow>
          if IsController c \<and> AList.delete i (clients s) \<noteq> []
          then clients (promote k (s\<lparr>clients := AList.delete i (clients s)\<rparr>))
          else AList.delete i (clients s))"
  by (simp add: RemoveClient_def Let_def split: option.splits)

lemma clients_Close: "clients (Close s) = (if closeOnce s then clients s else [])"
  by (simp add: Close_def Let_def)

lemma clients_readClient_step: "clients (snd (readClient_step now werr rz c m s)) = clients s"
  by (simp add: readClient_step_def readClient_message_def Let_def
      split: inbound.splits option.splits)

lemma clients_readPTY_step:
  "clients (snd (readPTY_step now r s)) = clients s \<or> clients (snd (readPTY_step now r s)) = []"
  by (simp add: readPTY_step_def clients_Close split: option.splits)

lemma clients_idleChecker_tick:
  "clients (snd (idleChecker_tick now s)) = clients s \<or> clients (snd (idleChecker_tick now s)) = []"
  by (simp add: idleChecker_tick_def Let_def clients_Close)

lemma exactly_one_at_most: "exactly_one xs \<Longrightarrow> at_most_one xs"
  by (simp add: exactly_one_def at_most_one_def)

lemma at_most_one_Nil [simp]: "at_most_one []" "exactly_one []"
  by (simp_all add: at_most_one_def exactly_one_def)

lemma at_most_one_add:
  assumes "at_most_one xs"
  shows "at_most_one (AList.update i \<lparr>ID = i, Conn = conn, IsController = (xs = [])\<rparr> xs)"
proof (cases "xs = []")
  case True
  then show ?thesis by (simp add: at_most_one_def)
next
  case False
  then have "nctl (AList.update i \<lparr>ID = i, Conn = conn, IsController = (xs = [])\<rparr> xs) \<le> nctl xs"
    by (intro nctl_update_viewer) simp
  with assms show ?thesis
    by (simp add: at_most_one_def distinct_update)
qed

lemma exactly_one_add:
  assumes "exactly_one xs" and "map_of xs i = None"
  shows "exactly_one (AList.update i \<lparr>ID = i, Conn = conn, IsController = (xs = [])\<rparr> xs)"
  using assms by (auto simp: exactly_one_def update_fresh map_of_eq_None_iff)

lemma remove_promote:
  fixes k :: nat
  assumes d: "distinct (map fst xs)" and c: "map_of xs i = Some c"
    and n: "nctl xs \<le> 1"
  defines "rest \<equiv> AList.delete i xs"
  defines "j \<equiv> k mod length rest"
  assumes ctl: "IsController c" and ne: "rest \<noteq> []"
  shows "distinct (map fst (rest[j := (fst (rest ! j), (snd (rest ! j))\<lparr>IsController := True\<rparr>)]))"
    and "nctl (rest[j := (fst (rest ! j), (snd (rest ! j))\<lparr>IsController := True\<rparr>)]) = 1"
proof -
  have j: "j < length rest"
    using ne by (simp add: j_def)
  have "nctl rest + 1 = nctl xs"
    using nctl_delete [OF d c] ctl by (simp add: rest_def)
  with n have z: "nctl rest = 0" by simp
  have "distinct (map fst rest)"
    using d by (simp add: rest_def distinct_delete)
  then show "distinct (map fst (rest[j := (fst (rest ! j), (snd (rest ! j))\<lparr>IsController := True\<rparr>)]))"
    using j by (simp add: keys_promote)
  show "nctl (rest[j := (fst (rest ! j), (snd (rest ! j))\<lparr>IsController := True\<rparr>)]) = 1"
    using nctl_promote [OF j] nctl_zero_nth [OF z j] z by simp
qed

lemma remove_viewer:
  assumes d: "distinct (map fst xs)" and c: "map_of xs i = Some c" and ctl: "\<not> IsController c"
  shows "nctl (AList.delete i xs) = nctl xs"
  using nctl_delete [OF d c] ctl by simp

lemma at_most_one_RemoveClient:
  assumes "at_most_one (clients s)"
  shows "at_most_one (clients (RemoveClient k i s))"
proof (cases "map_of (clients s) i")
  case None
  with assms show ?thesis by (simp add: clients_RemoveClient)
next
  case (Some c)
  have d: "distinct (map fst (clients s))" and n: "nctl (clients s) \<le> 1"
    using assms by (simp_all add: at_most_one_def)
  show ?thesis
  proof (cases "IsController c \<and> AList.delete i (clients s) \<noteq> []")
    case True
    then show ?thesis
      using remove_promote [OF d Some n, of k] Some
      by (simp add: clients_RemoveClient clients_promote at_most_one_def)
  next
    case False
    have le: "nctl (AList.delete i (clients s)) \<le> nctl (clients s)"
      using nctl_delete [OF d Some] by simp
    have "clients (RemoveClient k i s) = AList.delete i (clients s)"
      using False Some by (auto simp: clients_RemoveClient)
    with le d n show ?thesis
      by (simp add: at_most_one_def distinct_delete)
  qed
qed

lemma exactly_one_RemoveClient:
  assumes "exactly_one (clients s)"
  shows "exactly_one (clients (RemoveClient k i s))"
proof (cases "map_of (clients s) i")
  case None
  with assms show ?thesis by (simp add: clients_RemoveClient)
next
  case (Some c)
  have d: "distinct (map fst (clients s))"
    and n: "nctl (clients s) = (if clients s = [] then 0 else 1)"
    using assms by (simp_all add: exactly_one_def)
  have ne: "clients s \<noteq> []"
    using Some by auto
  have n1: "nctl (clients s) \<le> 1"
    using n by simp
  show ?thesis
  proof (cases "IsController c \<and> AList.delete i (clients s) \<noteq> []")
    case True
    then show ?thesis
      using remove_promote [OF d Some n1, of k] Some
      by (auto simp add: clients_RemoveClient clients_promote exactly_one_def)
  next
    case False
    show ?thesis
    proof (cases "AList.delete i (clients s) = []")
      case True
      with Some show ?thesis
        by (simp add: clients_RemoveClient exactly_one_def)
    next
      case False
      with \<open>\<not> (IsController c \<and> AList.delete i (clients s) \<noteq> [])\<close>
      have v: "\<not> IsController c" by simp
      show ?thesis
        using remove_viewer [OF d Some v] False v Some d n ne
        by (simp add: clients_RemoveClient exactly_one_def distinct_delete)
    qed
  qed
qed

lemma at_most_one_step:
  assumes "at_most_one (clients s)"
  shows "at_most_one (clients (step o1 s))"
proof (cases o1)
  case (OpAddClient i conn)
  with assms show ?thesis
    by (simp add: clients_AddClient at_most_one_add)
next
  case (OpRemoveClient k i)
  with assms show ?thesis
    by (simp add: at_most_one_RemoveClient)
next
  case OpClose
  with assms show ?thesis
    by (simp add: clients_Close)
next
  case (OpReadPTY now r)
  with assms clients_readPTY_step [of now r s] show ?thesis
    by auto
next
  case (OpReadClient k now werr rz c m)
  obtain out s1 where r: "readClient_step now werr rz c m s = (out, s1)"
    by (cases "readClient_step now werr rz c m s")
  then have "clients s1 = clients s"
    using clients_readClient_step [of now werr rz c m s] by simp
  with assms have "at_most_one (clients s1)" by simp
  then have "at_most_one (clients (RemoveClient k (ID c) s1))"
    by (rule at_most_one_RemoveClient)
  with OpReadClient r \<open>at_most_one (clients s1)\<close> show ?thesis
    by (cases out) simp_all
next
  case (OpIdleTick now)
  with assms clients_idleChecker_tick [of now s] show ?thesis
    by auto
qed

lemma exactly_one_step:
  assumes "exactly_one (clients s)" and "fresh_ids [o1] s"
  shows "exactly_one (clients (step o1 s))"
proof (cases o1)
  case (OpAddClient i conn)
  with assms show ?thesis
    by (simp add: clients_AddClient exactly_one_add)
next
  case (OpRemoveClient k i)
  with assms show ?thesis
    by (simp add: exactly_one_RemoveClient)
next
  case OpClose
  with assms show ?thesis
    by (simp add: clients_Close)
next
  case (OpReadPTY now r)
  with assms clients_readPTY_step [of now r s] show ?thesis
    by auto
next
  case (OpReadClient k now werr rz c m)
  obtain out s1 where r: "readClient_step now werr rz c m s = (out, s1)"
    by (cases "readClient_step now werr rz c m s")
  then have "clients s1 = clients s"
    using clients_readClient_step [of now werr rz c m s] by simp
  with assms have "exactly_one (clients s1)" by simp
  then have "exactly_one (clients (RemoveClient k (ID c) s1))"
    by (rule exactly_one_RemoveClient)
  with OpReadClient r \<open>exactly_one (clients s1)\<close> show ?thesis
    by (cases out) simp_all
next
  case (OpIdleTick now)
  with assms clients_idleChecker_tick [of now s] show ?thesis
    by auto
qed

lemma fresh_ids_Cons: "fresh_ids (o1 # os) s = (fresh_ids [o1] s \<and> fresh_ids os (step o1 s))"
  by (cases o1) simp_all

lemma at_most_one_states:
  "at_most_one (clients s) \<Longrightarrow> s' \<in> set (states ops s) \<Longrightarrow> at_most_one (clients s')"
proof (induction ops arbitrary: s)
  case Nil
  then show ?case by simp
next
  case (Cons o1 os)
  then show ?case
    using at_most_one_step [of s o1] by auto
qed

lemma exactly_one_states:
  "exactly_one (clients s) \<Longrightarrow> fresh_ids ops s \<Longrightarrow> s' \<in> set (states ops s)
     \<Longrightarrow> exactly_one (clients s')"
proof (induction ops arbitrary: s)
  case Nil
  then show ?case by simp
next
  case (Cons o1 os)
  from Cons.prems(2) have f: "fresh_ids [o1] s" "fresh_ids os (step o1 s)"
    using fresh_ids_Cons [of o1 os s] by simp_all
  from Cons.prems(3) consider "s' = s" | "s' \<in> set (states os (step o1 s))"
    by auto
  then show ?case
  proof cases
    case 1
    with Cons.prems(1) show ?thesis by simp
  next
    case 2
    show ?thesis
      using Cons.IH [OF exactly_one_step [OF Cons.prems(1) f(1)] f(2) 2] .
  qed
qed

text \<open>
  C1, as amended. Start from an empty set and run any operations. In every state on the
  way at most one client has \<open>IsController\<close>; and when no \<open>AddClient\<close> uses an id that is in
  the set at that time, every state with a set that is not empty has exactly one.
  Without the condition on ids the claim fails: adding the id of the only client again
  replaces the controller by a viewer.
\<close>

theorem controller_unique:
  assumes "clients s = []" and "s' \<in> set (states ops s)"
  shows "controllers s' \<le> 1 \<and>
         (fresh_ids ops s \<longrightarrow> clients s' \<noteq> [] \<longrightarrow> controllers s' = 1)"
proof -
  have "at_most_one (clients s')"
    using at_most_one_states [OF _ assms(2)] assms(1) by simp
  moreover have "exactly_one (clients s')" if "fresh_ids ops s"
    using exactly_one_states [OF _ that assms(2)] assms(1) by simp
  ultimately show ?thesis
    by (auto simp: controllers_def at_most_one_def exactly_one_def)
qed

theorem controller_unique_counterexample:
  "clients (run [OpAddClient ''a'' 1, OpAddClient ''a'' 2] session0) \<noteq> [] \<and>
   controllers (run [OpAddClient ''a'' 1, OpAddClient ''a'' 2] session0) = 0"
  by (simp add: session0_def AddClient_def Let_def emit_def broadcastClientCount_def
      controllers_def)

theorem controller_unique_witness:
  "clients session0 = [] \<and>
   fresh_ids [OpAddClient ''a'' 1, OpAddClient ''b'' 2, OpRemoveClient 0 ''a''] session0 \<and>
   clients (run [OpAddClient ''a'' 1, OpAddClient ''b'' 2, OpRemoveClient 0 ''a''] session0)
     = [(''b'', \<lparr>ID = ''b'', Conn = 2, IsController = True\<rparr>)] \<and>
   controllers (run [OpAddClient ''a'' 1, OpAddClient ''b'' 2, OpRemoveClient 0 ''a''] session0) = 1"
  using controller_unique [of session0
      "run [OpAddClient ''a'' 1, OpAddClient ''b'' 2, OpRemoveClient 0 ''a''] session0"
      "[OpAddClient ''a'' 1, OpAddClient ''b'' 2, OpRemoveClient 0 ''a'']"]
  by (simp add: session0_def AddClient_def RemoveClient_def promote_def Let_def emit_def
      broadcastClientCount_def)

subsection \<open>Succession\<close>

lemma trace_promote:
  \<open>trace (promote k s) = trace s @
     [ConnWrite (Conn (snd (clients s ! (k mod length (clients s)))))
        (TextMessage \<lparr>Type = ''role'', Data = ''{"role":"controller"}''\<rparr>)]\<close>
  by (simp add: promote_def Let_def emit_def split: prod.splits)

text \<open>
  C2. When the client removed is the controller and another client remains,
  \<open>RemoveClient\<close> sets \<open>IsController\<close> of exactly one remaining client, whichever entry the
  iteration over the map yields first, and leaves every other entry as it is. The first
  thing it writes is the \<open>role\<close> message to that client, with the data
  \<open>{"role":"controller"}\<close> and nothing else in it; then the connection of the removed client
  is closed and the count goes to the clients that remain. In a set with distinct ids and
  at most one controller the promoted client was a viewer and is the only controller
  afterwards.
\<close>

theorem RemoveClient_promotes:
  fixes k :: nat
  assumes c: "map_of (clients s) i = Some c" and ctl: "IsController c"
    and ne: "AList.delete i (clients s) \<noteq> []"
  defines "rest \<equiv> AList.delete i (clients s)"
  defines "s' \<equiv> RemoveClient k i s"
  shows \<open>\<exists>j n next. j < length rest \<and> rest ! j = (n, next) \<and>
      clients s' = rest[j := (n, next\<lparr>IsController := True\<rparr>)] \<and>
      map_of (clients s') i = None \<and>
      trace s' = trace s @
        [ConnWrite (Conn next) (TextMessage \<lparr>Type = ''role'', Data = ''{"role":"controller"}''\<rparr>),
         ConnClose (Conn c)] @
        map (\<lambda>(i, c). ConnWrite (Conn c)
              (TextMessage \<lparr>Type = ''clients'', Data = count_data (length rest)\<rparr>)) (clients s') \<and>
      (distinct (map fst (clients s)) \<and> controllers s \<le> 1 \<longrightarrow>
         \<not> IsController next \<and> controllers s' = 1)\<close>
proof -
  define j where "j = k mod length rest"
  obtain n "next" where nx: "rest ! j = (n, next)"
    by (cases "rest ! j")
  have j: "j < length rest"
    using ne by (simp add: j_def rest_def)
  have cl: "clients s' = rest[j := (n, next\<lparr>IsController := True\<rparr>)]"
    using c ctl ne nx
    by (simp add: s'_def clients_RemoveClient clients_promote rest_def j_def)
  have "i \<notin> fst ` set rest"
    by (simp add: rest_def delete_notin_dom)
  then have "i \<notin> fst ` set (clients s')"
    using j nx unfolding cl
    by (metis keys_promote fst_conv list.set_map)
  then have absent: "map_of (clients s') i = None"
    by (simp add: map_of_eq_None_iff)
  have tr: \<open>trace s' = trace s @
        [ConnWrite (Conn next) (TextMessage \<lparr>Type = ''role'', Data = ''{"role":"controller"}''\<rparr>),
         ConnClose (Conn c)] @
        map (\<lambda>(i, c). ConnWrite (Conn c)
              (TextMessage \<lparr>Type = ''clients'', Data = count_data (length rest)\<rparr>)) (clients s')\<close>
    using c ctl ne nx cl
    by (simp add: s'_def RemoveClient_def Let_def trace_promote clients_promote
        broadcastClientCount_def emit_def rest_def j_def)
  have inv: "\<not> IsController next \<and> controllers s' = 1"
    if "distinct (map fst (clients s))" "controllers s \<le> 1"
  proof -
    have "nctl rest + 1 = nctl (clients s)"
      using nctl_delete [OF that(1) c] ctl by (simp add: rest_def)
    with that(2) have z: "nctl rest = 0"
      by (simp add: controllers_def)
    have "\<not> IsController next"
      using nctl_zero_nth [OF z j] nx by simp
    moreover have "controllers s' = 1"
      using nctl_promote [OF j] nx z \<open>\<not> IsController next\<close>
      by (simp add: controllers_def cl)
    ultimately show ?thesis by simp
  qed
  show ?thesis
    using j nx cl absent tr inv by blast
qed

lemma session3_eq:
  \<open>session3 = session0\<lparr>
     clients := [(''a'', \<lparr>ID = ''a'', Conn = 1, IsController = True\<rparr>),
                 (''b'', \<lparr>ID = ''b'', Conn = 2, IsController = False\<rparr>),
                 (''c'', \<lparr>ID = ''c'', Conn = 3, IsController = False\<rparr>)],
     trace := [ConnWrite 1 (TextMessage \<lparr>Type = ''role'', Data = ''{"role":"controller","sharedInput":false}''\<rparr>),
               ConnWrite 1 (TextMessage \<lparr>Type = ''clients'', Data = ''{"count":1}''\<rparr>),
               ConnWrite 2 (TextMessage \<lparr>Type = ''role'', Data = ''{"role":"viewer","sharedInput":false}''\<rparr>),
               ConnWrite 1 (TextMessage \<lparr>Type = ''clients'', Data = ''{"count":2}''\<rparr>),
               ConnWrite 2 (TextMessage \<lparr>Type = ''clients'', Data = ''{"count":2}''\<rparr>),
               ConnWrite 3 (TextMessage \<lparr>Type = ''role'', Data = ''{"role":"viewer","sharedInput":false}''\<rparr>),
               ConnWrite 1 (TextMessage \<lparr>Type = ''clients'', Data = ''{"count":3}''\<rparr>),
               ConnWrite 2 (TextMessage \<lparr>Type = ''clients'', Data = ''{"count":3}''\<rparr>),
               ConnWrite 3 (TextMessage \<lparr>Type = ''clients'', Data = ''{"count":3}''\<rparr>)]\<rparr>\<close>
  by (simp add: session3_def session0_def AddClient_def Let_def emit_def
      broadcastClientCount_def role_data_def fmt_q_def fmt_v_def count_data_def digit_def)

theorem RemoveClient_promotes_witness:
  \<open>map_of (clients session3) ''a'' = Some \<lparr>ID = ''a'', Conn = 1, IsController = True\<rparr> \<and>
   clients (RemoveClient 1 ''a'' session3) =
     [(''b'', \<lparr>ID = ''b'', Conn = 2, IsController = False\<rparr>),
      (''c'', \<lparr>ID = ''c'', Conn = 3, IsController = True\<rparr>)] \<and>
   drop (length (trace session3)) (trace (RemoveClient 1 ''a'' session3)) =
     [ConnWrite 3 (TextMessage \<lparr>Type = ''role'', Data = ''{"role":"controller"}''\<rparr>),
      ConnClose 1,
      ConnWrite 2 (TextMessage \<lparr>Type = ''clients'', Data = ''{"count":2}''\<rparr>),
      ConnWrite 3 (TextMessage \<lparr>Type = ''clients'', Data = ''{"count":2}''\<rparr>)]\<close>
  using RemoveClient_promotes [of session3 "''a''" "\<lparr>ID = ''a'', Conn = 1, IsController = True\<rparr>" 1]
  by (simp add: session3_eq session0_def RemoveClient_def promote_def Let_def emit_def
      broadcastClientCount_def count_data_def digit_def)

subsection \<open>Closing once\<close>

lemma closing_ConnWrite_map [simp]:
  "filter closing (map (\<lambda>(i, c). ConnWrite (g c) (f i c)) xs) = []"
  by (induction xs) auto

lemma closing_close_frames [simp]:
  "filter closing (concat (map (\<lambda>(i, c). [ConnWrite (g c) (f i c), ConnClose (g c)]) xs)) = []"
  by (induction xs) auto

lemma lifecycle_emit [simp]: "lifecycle (emit evs s) = lifecycle s"
  by (simp add: lifecycle_def emit_def)

lemma lifecycle_clients_update [simp]: "lifecycle (s\<lparr>clients := x\<rparr>) = lifecycle s"
  by (simp add: lifecycle_def)

lemma lifecycle_lastActive_update [simp]: "lifecycle (s\<lparr>lastActive := x\<rparr>) = lifecycle s"
  by (simp add: lifecycle_def)

lemma trace_emit [simp]: "trace (emit evs s) = trace s @ evs"
  by (simp add: emit_def)

lemma onClose_emit [simp]: "onClose (emit evs s) = onClose s"
  by (simp add: emit_def)

lemma quiet_refl [simp]: "quiet s s"
  by (simp add: quiet_def)

lemma quiet_trans: "quiet s s1 \<Longrightarrow> quiet s1 s2 \<Longrightarrow> quiet s s2"
  by (simp add: quiet_def)

lemma quiet_broadcastClientCount: "quiet s (broadcastClientCount s)"
  by (simp add: quiet_def broadcastClientCount_def Let_def)

lemma quiet_broadcast: "quiet s (broadcast d s)"
  by (simp add: quiet_def broadcast_def Let_def)

lemma quiet_touchActivity: "quiet s (touchActivity now s)"
  by (simp add: quiet_def touchActivity_def)

lemma quiet_AddClient: "quiet s (snd (AddClient i conn s))"
  by (simp add: quiet_def AddClient_def Let_def broadcastClientCount_def)

lemma quiet_promote: "quiet s (promote k s)"
  by (simp add: quiet_def promote_def Let_def split: prod.splits)

lemma quiet_RemoveClient: "quiet s (RemoveClient k i s)"
proof (cases "map_of (clients s) i")
  case None
  then show ?thesis by (simp add: RemoveClient_def)
next
  case (Some c)
  have 1: "quiet s (s\<lparr>clients := AList.delete i (clients s)\<rparr>)"
    by (simp add: quiet_def)
  have 2: "quiet s (promote k (s\<lparr>clients := AList.delete i (clients s)\<rparr>))"
    using quiet_trans [OF 1 quiet_promote] .
  show ?thesis
    using Some 1 2
    by (auto simp: RemoveClient_def Let_def quiet_def broadcastClientCount_def)
qed

lemma quiet_readClient_step: "quiet s (snd (readClient_step now werr rz c m s))"
  by (auto simp: readClient_step_def readClient_message_def Let_def quiet_def
      touchActivity_def split: inbound.splits option.splits)

lemma Close_closed: "closeOnce s \<Longrightarrow> Close s = s"
  by (simp add: Close_def)

lemma Close_first:
  assumes "\<not> closeOnce s"
  shows "lifecycle (Close s) = (True, True, Closed, Reaped)"
    and "onClose (Close s) = onClose s"
    and "clients (Close s) = []"
    and "filter closing (trace (Close s)) =
           filter closing (trace s) @ CloseDone # (if onClose s then [OnCloseCall] else [])"
  using assms by (simp_all add: Close_def Let_def lifecycle_def emit_def)

lemma step_cases:
  "quiet s (step o1 s) \<or> (\<not> closeOnce s \<and> step o1 s = Close s)"
proof (cases o1)
  case (OpAddClient i conn)
  then show ?thesis by (simp add: quiet_AddClient)
next
  case (OpRemoveClient k i)
  then show ?thesis by (simp add: quiet_RemoveClient)
next
  case OpClose
  then show ?thesis by (cases "closeOnce s") (simp_all add: Close_closed)
next
  case (OpReadPTY now r)
  have "quiet s (broadcast d (touchActivity now s))" for d
    using quiet_trans [OF quiet_touchActivity quiet_broadcast] .
  with OpReadPTY show ?thesis
    by (cases "closeOnce s") (auto simp: readPTY_step_def Close_closed split: option.splits)
next
  case (OpReadClient k now werr rz c m)
  obtain out s1 where r: "readClient_step now werr rz c m s = (out, s1)"
    by (cases "readClient_step now werr rz c m s")
  then have q: "quiet s s1"
    using quiet_readClient_step [of s now werr rz c m] by simp
  have "quiet s (RemoveClient k (ID c) s1)"
    using quiet_trans [OF q quiet_RemoveClient] .
  with OpReadClient r q show ?thesis
    by (cases out) simp_all
next
  case (OpIdleTick now)
  then show ?thesis
    by (cases "closeOnce s") (auto simp: idleChecker_tick_def Let_def Close_closed)
qed

lemma close_inv_Close: "close_inv s \<Longrightarrow> close_inv (Close s)"
proof (cases "closeOnce s")
  case True
  then show "close_inv s \<Longrightarrow> close_inv (Close s)" by (simp add: Close_closed)
next
  case False
  assume "close_inv s"
  with False show "close_inv (Close s)"
    using Close_first [OF False]
    by (simp add: close_inv_def lifecycle_def)
qed

lemma close_inv_step: "close_inv s \<Longrightarrow> close_inv (step o1 s)"
  using step_cases [of s o1] close_inv_Close [of s]
  by (auto simp: quiet_def close_inv_def lifecycle_def)

lemma close_inv_run: "close_inv s \<Longrightarrow> close_inv (run ops s)"
  by (induction ops arbitrary: s) (simp_all add: close_inv_step)

lemma onClose_step: "onClose (step o1 s) = onClose s"
  using step_cases [of s o1] Close_first(2) [of s]
  by (auto simp: quiet_def)

lemma onClose_run: "onClose (run ops s) = onClose s"
  by (induction ops arbitrary: s) (simp_all add: onClose_step)

lemma close_inv_New: "New cfg windows started now = Inr s \<Longrightarrow> close_inv s \<and> onClose s = OnClose cfg"
  by (auto simp: New_def close_inv_def split: if_splits)

lemma Close_funpow: "(Close ^^ Suc n) s = Close s"
proof (induction n)
  case 0
  show ?case by simp
next
  case (Suc n)
  have "closeOnce (Close s)"
    by (simp add: Close_def Let_def emit_def)
  then have "Close (Close s) = Close s"
    by (rule Close_closed)
  with Suc show ?case by simp
qed

text \<open>
  C3. Take a session as \<open>New\<close> returns it and run any operations on it, \<open>Close\<close> among
  them or not. Calling \<open>Close\<close> once more, or any number of times more, ends in the same
  state. In that state \<open>Done\<close> is signalled, and the whole trace holds exactly one
  \<^verbatim>\<open>close(s.done)\<close>, followed by exactly one call of the callback when one is configured
  (none otherwise).
\<close>

theorem Close_once:
  fixes ops :: "op list"
  assumes "New cfg windows started now = Inr s0"
  defines "s \<equiv> run ops s0"
  shows "(Close ^^ Suc n) s = Close s \<and>
         Done (Close s) \<and>
         filter closing (trace (Close s)) = CloseDone # (if OnClose cfg then [OnCloseCall] else [])"
proof -
  have inv: "close_inv s" and oc: "onClose s = OnClose cfg"
    using close_inv_New [OF assms(1)] close_inv_run [of s0 ops] onClose_run [of ops s0]
    by (simp_all add: s_def)
  have i2: "close_inv (Close s)"
    using inv by (rule close_inv_Close)
  have c: "closeOnce (Close s)"
    by (simp add: Close_def Let_def emit_def)
  have "onClose (Close s) = OnClose cfg"
    using oc Close_first(2) [of s] by (cases "closeOnce s") (simp_all add: Close_closed)
  with i2 c Close_funpow [of n s] show ?thesis
    by (simp add: close_inv_def Done_def del: funpow.simps)
qed

lemma OnClose_cfg0: "OnClose cfg0"
  by (simp add: cfg0_def)

theorem Close_once_witness:
  "New cfg0 False True 0 = Inr session0 \<and>
   (Close ^^ 3) (run [OpAddClient ''a'' 1, OpClose, OpRemoveClient 0 ''a''] session0)
     = Close (run [OpAddClient ''a'' 1, OpClose, OpRemoveClient 0 ''a''] session0) \<and>
   filter closing (trace (Close (run [OpAddClient ''a'' 1, OpClose, OpRemoveClient 0 ''a''] session0)))
     = [CloseDone, OnCloseCall]"
  using Close_once [OF New_session0, of 2 "[OpAddClient ''a'' 1, OpClose, OpRemoveClient 0 ''a'']"]
  by (simp add: New_session0 OnClose_cfg0 numeral_3_eq_3)

subsection \<open>After closing\<close>

lemma written_append [simp]: "written (xs @ ys) = written xs @ written ys"
  by (induction xs rule: written.induct) auto

lemma written_map [simp]:
  "written (map (\<lambda>(i, c). ConnWrite (Conn c) (f i c)) xs) = map (\<lambda>(i, c). Conn c) xs"
  by (induction xs) auto

lemma written_close_frames [simp]:
  "written (concat (map (\<lambda>(i, c). [ConnWrite (Conn c) (f i c), ConnClose (Conn c)]) xs))
     = map (\<lambda>(i, c). Conn c) xs"
  by (induction xs) auto

lemma grows_refl [simp]: "grows A s s"
  by (simp add: grows_def)



lemma conns_emit [simp]: "conns (emit evs s) = conns s"
  by (simp add: conns_def)






















subsection \<open>The first client\<close>













subsection \<open>Input\<close>

lemma keys_clients_promote: "clients s \<noteq> [] \<Longrightarrow> map fst (clients (promote k s)) = map fst (clients s)"
  by (simp add: clients_promote keys_promote)

lemma RemoveClient_absent: "map_of (clients (RemoveClient k i s)) i = None"
proof (cases "map_of (clients s) i")
  case None
  then show ?thesis by (simp add: RemoveClient_def)
next
  case (Some c)
  let ?s1 = "s\<lparr>clients := AList.delete i (clients s)\<rparr>"
  have "i \<notin> set (map fst (AList.delete i (clients s)))"
    by (simp add: delete_notin_dom)
  moreover have "map fst (clients (RemoveClient k i s)) = map fst (AList.delete i (clients s))"
    using Some keys_clients_promote [of ?s1 k]
    by (auto simp: clients_RemoveClient)
  ultimately have "i \<notin> fst ` set (clients (RemoveClient k i s))"
    by (metis list.set_map)
  then show ?thesis
    by (simp add: map_of_eq_None_iff)
qed

lemma Unmarshal_string_x:
  "Unmarshal_string [CHR 0x22, CHR ''x'', CHR 0x22] = Some ''x''"
  by (simp add: Unmarshal_string_def trim_def isSpace_def unquote.simps)

lemma Unmarshal_string_123: "Unmarshal_string ''123'' = None"
  by (simp add: Unmarshal_string_def trim_def isSpace_def)

lemma Unmarshal_string_null: "Unmarshal_string ''null'' = Some []"
  by (simp add: Unmarshal_string_def trim_def isSpace_def)

lemma Unmarshal_string_absent: "Unmarshal_string [] = None"
  by (simp add: Unmarshal_string_def trim_def)

text \<open>
  C4, as amended. For every \<open>input\<close> message: \<^verbatim>\<open>ptmx.Write\<close> is called, with the decoded
  payload, exactly when \<^verbatim>\<open>json.Unmarshal\<close> takes the data for a string and the session
  shares input or the client is the controller at the time the message is handled. Data
  that \<^verbatim>\<open>json.Unmarshal\<close> refuses causes no call and no change whatever the role. With no
  shared input a message from a client that is not the controller changes nothing at
  all, whatever its data. (\<^verbatim>\<open>json.Unmarshal\<close> takes a JSON string, and also \<open>null\<close>, for
  which the payload is empty. The call reaches the terminal when the master is open and
  the operating system takes the bytes.)
\<close>

theorem input_arbitration:
  assumes "Type msg = ''input''"
  shows "canWrite s c = (sharedInput s \<or> IsController c) \<and>
         trace (snd (readClient_message now werr rz c msg s)) = trace s @
           (case Unmarshal_string (Data msg) of
              Some input \<Rightarrow> if sharedInput s \<or> IsController c then [PtmxWrite input] else []
            | None \<Rightarrow> []) \<and>
         (Unmarshal_string (Data msg) = None \<longrightarrow>
            readClient_message now werr rz c msg s = (Continue, s)) \<and>
         (\<not> sharedInput s \<and> \<not> IsController c \<longrightarrow>
            readClient_message now werr rz c msg s = (Continue, s))"
  using assms
  by (auto simp: readClient_message_def canWrite_def Let_def touchActivity_def
      split: option.splits)

theorem input_arbitration_counterexample:
  "canWrite session3 \<lparr>ID = ''a'', Conn = 1, IsController = True\<rparr> \<and>
   readClient_message 5 False None \<lparr>ID = ''a'', Conn = 1, IsController = True\<rparr>
     \<lparr>Type = ''input'', Data = ''123''\<rparr> session3 = (Continue, session3)"
  by (simp add: readClient_message_def canWrite_def Unmarshal_string_123 session3_eq session0_def)

theorem input_arbitration_witness:
  "trace (snd (readClient_message 5 False None \<lparr>ID = ''a'', Conn = 1, IsController = True\<rparr>
     \<lparr>Type = ''input'', Data = [CHR 0x22, CHR ''x'', CHR 0x22]\<rparr> session3))
     = trace session3 @ [PtmxWrite ''x''] \<and>
   readClient_message 5 False None \<lparr>ID = ''c'', Conn = 3, IsController = False\<rparr>
     \<lparr>Type = ''input'', Data = [CHR 0x22, CHR ''x'', CHR 0x22]\<rparr> session3 = (Continue, session3) \<and>
   readClient_message 5 False None \<lparr>ID = ''c'', Conn = 3, IsController = False\<rparr>
     \<lparr>Type = ''input'', Data = ''null''\<rparr> session3 = (Continue, session3)"
  using input_arbitration [of "\<lparr>Type = ''input'', Data = [CHR 0x22, CHR ''x'', CHR 0x22]\<rparr>"
      session3 "\<lparr>ID = ''a'', Conn = 1, IsController = True\<rparr>" 5 False None]
    input_arbitration [of "\<lparr>Type = ''input'', Data = [CHR 0x22, CHR ''x'', CHR 0x22]\<rparr>"
      session3 "\<lparr>ID = ''c'', Conn = 3, IsController = False\<rparr>" 5 False None]
    input_arbitration [of "\<lparr>Type = ''input'', Data = ''null''\<rparr>"
      session3 "\<lparr>ID = ''c'', Conn = 3, IsController = False\<rparr>" 5 False None]
  by (simp add: Unmarshal_string_x session3_eq session0_def)

text \<open>
  C6, as amended. When an accepted \<open>input\<close> message makes the write to the master fail,
  the reader of that client returns without reading further frames, and the deferred
  \<open>RemoveClient\<close> takes that client out of the set. \<open>Close\<close> is not called on this path:
  the latch, the \<^verbatim>\<open>done\<close> channel, the master and the child are as before and no closing
  event is emitted. It is a failed read of the master, in \<open>readPTY\<close>, that calls \<open>Close\<close>.
\<close>

theorem pty_write_failure:
  fixes now :: int and k :: nat and rz :: "resizeMsg option"
    and ms :: "(inbound \<times> int \<times> bool \<times> resizeMsg option) list"
  assumes "Type msg = ''input''" and "canWrite s c"
    and "Unmarshal_string (Data msg) = Some input" and "werr \<or> ptmx s = Closed"
  defines "s1 \<equiv> emit [PtmxWrite input] (touchActivity now s)"
  defines "s' \<equiv> step (OpReadClient k now werr rz c (Message msg)) s"
  shows "readClient_message now werr rz c msg s = (Return, s1) \<and>
         s' = RemoveClient k (ID c) s1 \<and>
         readClient k c ((Message msg, now, werr, rz) # ms) s = s' \<and>
         map_of (clients s') (ID c) = None \<and>
         lifecycle s' = lifecycle s \<and>
         filter closing (trace s') = filter closing (trace s) \<and>
         snd (readPTY_step now None s) = Close s"
proof -
  have m: "readClient_message now werr rz c msg s = (Return, s1)"
    using assms(1-4) by (auto simp: readClient_message_def Let_def s1_def touchActivity_def emit_def)
  then have s': "s' = RemoveClient k (ID c) s1"
    by (simp add: s'_def readClient_step_def)
  have loop: "readClient k c ((Message msg, now, werr, rz) # ms) s = s'"
    using m s' by (simp add: readClient_step_def)
  have "quiet s s1"
    by (simp add: quiet_def s1_def touchActivity_def)
  then have "quiet s s'"
    unfolding s' using quiet_RemoveClient quiet_trans by blast
  then show ?thesis
    using m s' loop RemoveClient_absent [of k "ID c" s1]
    by (simp add: quiet_def readPTY_step_def)
qed

theorem pty_write_failure_counterexample:
  "canWrite session3 \<lparr>ID = ''a'', Conn = 1, IsController = True\<rparr> \<and>
   \<not> Done (step (OpReadClient 0 5 True None \<lparr>ID = ''a'', Conn = 1, IsController = True\<rparr>
        (Message \<lparr>Type = ''input'', Data = [CHR 0x22, CHR ''x'', CHR 0x22]\<rparr>)) session3) \<and>
   filter closing (trace (step (OpReadClient 0 5 True None \<lparr>ID = ''a'', Conn = 1, IsController = True\<rparr>
        (Message \<lparr>Type = ''input'', Data = [CHR 0x22, CHR ''x'', CHR 0x22]\<rparr>)) session3)) = [] \<and>
   PtmxWrite ''x'' \<in> set (trace (step (OpReadClient 0 5 True None \<lparr>ID = ''a'', Conn = 1, IsController = True\<rparr>
        (Message \<lparr>Type = ''input'', Data = [CHR 0x22, CHR ''x'', CHR 0x22]\<rparr>)) session3))"
  by (simp add: readClient_step_def readClient_message_def canWrite_def Unmarshal_string_x
      session3_eq session0_def touchActivity_def emit_def Let_def RemoveClient_def promote_def
      broadcastClientCount_def Done_def)

theorem pty_write_failure_witness:
  "canWrite session3 \<lparr>ID = ''a'', Conn = 1, IsController = True\<rparr> \<and>
   Unmarshal_string [CHR 0x22, CHR ''x'', CHR 0x22] = Some ''x'' \<and>
   map_of (clients (step (OpReadClient 0 5 True None \<lparr>ID = ''a'', Conn = 1, IsController = True\<rparr>
        (Message \<lparr>Type = ''input'', Data = [CHR 0x22, CHR ''x'', CHR 0x22]\<rparr>)) session3)) ''a'' = None \<and>
   lifecycle (step (OpReadClient 0 5 True None \<lparr>ID = ''a'', Conn = 1, IsController = True\<rparr>
        (Message \<lparr>Type = ''input'', Data = [CHR 0x22, CHR ''x'', CHR 0x22]\<rparr>)) session3)
     = (False, False, Open, Running)"
  using pty_write_failure [where msg = "\<lparr>Type = ''input'', Data = [CHR 0x22, CHR ''x'', CHR 0x22]\<rparr>"
      and s = session3 and c = "\<lparr>ID = ''a'', Conn = 1, IsController = True\<rparr>"
      and input = "''x''" and werr = True and k = 0 and now = 5 and rz = None and ms = "[]"]
  by (simp add: readClient_step_def readClient_message_def canWrite_def Unmarshal_string_x
      session3_eq session0_def touchActivity_def emit_def Let_def RemoveClient_def promote_def
      broadcastClientCount_def lifecycle_def)

lemma undecodable_input_noop:
  "Type msg = ''input'' \<Longrightarrow> Unmarshal_string (Data msg) = None \<Longrightarrow>
     readClient_message now werr rz c msg s = (Continue, s)"
  by (simp add: readClient_message_def)

text \<open>
  C10. An \<open>input\<close> message from a client that may write, with a data field that is absent
  or that does not decode, changes nothing and the reader goes on (the lemma above). The
  data \<open>null\<close> is not a JSON string, but \<^verbatim>\<open>json.Unmarshal\<close> into a string accepts it without
  an error: from the controller the message is handled as the empty input,
  \<open>lastActive\<close> is set to the time of handling and \<^verbatim>\<open>ptmx.Write\<close> is called with no bytes.
\<close>

theorem null_input_touches_activity:
  "canWrite session3 \<lparr>ID = ''a'', Conn = 1, IsController = True\<rparr> \<and>
   lastActive session3 = 0 \<and>
   readClient_message 99 False None \<lparr>ID = ''a'', Conn = 1, IsController = True\<rparr>
     \<lparr>Type = ''input'', Data = ''null''\<rparr> session3
     = (Continue, session3\<lparr>lastActive := 99, trace := trace session3 @ [PtmxWrite []]\<rparr>)"
  by (simp add: readClient_message_def canWrite_def Unmarshal_string_null session3_eq
      session0_def touchActivity_def emit_def Let_def)

subsection \<open>Idle shutdown\<close>

lemma tick_period_pos: "0 < tick_period"
  by (simp add: tick_period_def Second_def)

lemma div_bounds:
  fixes T P :: int
  assumes "0 < P"
  shows "T div P * P \<le> T" and "T < (T div P + 1) * P"
proof -
  have m: "0 \<le> T mod P" "T mod P < P"
    using assms by simp_all
  have e: "T = T div P * P + T mod P"
    by simp
  show "T div P * P \<le> T"
    using m(1) e by linarith
  have "(T div P + 1) * P = T div P * P + P"
    by (simp add: distrib_right)
  then show "T < (T div P + 1) * P"
    using m(2) e by linarith
qed

text \<open>With nothing else happening, the checker closes the session at the first tick that
  is handled more than the timeout after \<open>lastActive\<close>.\<close>

lemma idleChecker_fires:
  assumes "\<not> done_ch s"
  shows "idleChecker ticks s =
           (if \<exists>now \<in> set ticks. lastActive s + idleTimeout s < now then Close s else s)"
  using assms
proof (induction ticks)
  case Nil
  show ?case by simp
next
  case (Cons now ticks)
  show ?case
  proof (cases "lastActive s + idleTimeout s < now")
    case True
    then have "idleChecker_tick now s = (Return, Close s)"
      by (simp add: idleChecker_tick_def Let_def)
    with True Cons.prems show ?thesis
      by simp
  next
    case False
    then have "idleChecker_tick now s = (Continue, s)"
      by (simp add: idleChecker_tick_def Let_def)
    with False Cons show ?thesis
      by simp
  qed
qed

lemma ticker_ge: "ticker start ticks \<Longrightarrow> now \<in> set ticks \<Longrightarrow> start + tick_period \<le> now"
proof (induction ticks arbitrary: start)
  case Nil
  then show ?case by simp
next
  case (Cons a ticks)
  show ?case
  proof (cases "now = a")
    case True
    with Cons.prems(1) show ?thesis by simp
  next
    case False
    with Cons.prems have "ticker (start + tick_period) ticks" "now \<in> set ticks"
      by simp_all
    then have "start + tick_period + tick_period \<le> now"
      by (rule Cons.IH)
    with tick_period_pos show ?thesis by linarith
  qed
qed

lemma ticker_last:
  "ticker start ticks \<Longrightarrow> ticks \<noteq> [] \<Longrightarrow> start + int (length ticks) * tick_period \<le> last ticks"
proof (induction ticks arbitrary: start)
  case Nil
  then show ?case by simp
next
  case (Cons a ticks)
  show ?case
  proof (cases "ticks = []")
    case True
    with Cons.prems(1) show ?thesis by simp
  next
    case False
    from Cons.prems(1) have "ticker (start + tick_period) ticks"
      by simp
    then have "start + tick_period + int (length ticks) * tick_period \<le> last ticks"
      using False by (rule Cons.IH)
    with False show ?thesis
      by (simp add: distrib_right)
  qed
qed

text \<open>
  C8, as amended. The idle checker of a session with a positive timeout has a ticker of
  ten seconds (instants and durations are in nanoseconds), made after the session; a
  tick reads \<open>lastActive\<close> and calls \<open>Close\<close> when
  the time since then is more than the timeout. With nothing else happening, the
  session is closed exactly when a tick has been handled later than the timeout after
  the creation: then \<open>Done\<close> is signalled and the child is reaped. No tick is handled
  before ten seconds after the creation, so up to then the session is as it was,
  whatever the timeout: for a timeout of 50 ms it is still open after 120 ms. A ticker
  that has given more ticks than the timeout has whole periods has closed the session.
\<close>

theorem idle_shutdown:
  fixes start until :: int
  assumes "New cfg windows started created = Inr s" and "0 < IdleTimeout cfg"
    and "created \<le> start" and "ticker start ticks"
  shows "idle_watch ticks s =
           (if \<exists>now \<in> set ticks. created + IdleTimeout cfg < now then Close s else s) \<and>
         \<not> Done s \<and> cmd s = Running \<and> Done (Close s) \<and> cmd (Close s) = Reaped \<and>
         tick_period = 10000000000 \<and>
         (\<forall>now \<in> set ticks. created + tick_period \<le> now) \<and>
         (until < created + tick_period \<longrightarrow>
            idle_watch (takeWhile (\<lambda>now. now \<le> until) ticks) s = s) \<and>
         (IdleTimeout cfg div tick_period < int (length ticks) \<longrightarrow>
            idle_watch ticks s = Close s)"
proof -
  have s: "lastActive s = created" "idleTimeout s = IdleTimeout cfg" "\<not> done_ch s"
    "\<not> closeOnce s" "cmd s = Running"
    using assms(1) by (auto simp: New_def split: if_splits)
  have w: "idle_watch ticks s =
      (if \<exists>now \<in> set ticks. created + IdleTimeout cfg < now then Close s else s)" for ticks
    using idleChecker_fires [OF s(3), of ticks] s(1,2) assms(2)
    by (simp add: idle_watch_def)
  have ge: "\<forall>now \<in> set ticks. created + tick_period \<le> now"
  proof
    fix now
    assume "now \<in> set ticks"
    then have "start + tick_period \<le> now"
      using assms(4) by (intro ticker_ge)
    with assms(3) show "created + tick_period \<le> now"
      by linarith
  qed
  have early: "until < created + tick_period \<longrightarrow>
      idle_watch (takeWhile (\<lambda>now. now \<le> until) ticks) s = s"
  proof
    assume u: "until < created + tick_period"
    have "takeWhile (\<lambda>now. now \<le> until) ticks = []"
    proof (cases ticks)
      case Nil
      then show ?thesis by simp
    next
      case (Cons a as)
      then have "created + tick_period \<le> a"
        using ge by simp
      with u Cons show ?thesis by simp
    qed
    then show "idle_watch (takeWhile (\<lambda>now. now \<le> until) ticks) s = s"
      by (simp add: w)
  qed
  have enough: "IdleTimeout cfg div tick_period < int (length ticks) \<longrightarrow>
      idle_watch ticks s = Close s"
  proof
    assume l: "IdleTimeout cfg div tick_period < int (length ticks)"
    have d0: "0 \<le> IdleTimeout cfg div tick_period"
      using assms(2) tick_period_pos by (simp add: pos_imp_zdiv_nonneg_iff)
    with l have ne: "ticks \<noteq> []"
      by auto
    have "IdleTimeout cfg div tick_period + 1 \<le> int (length ticks)"
      using l by simp
    then have "(IdleTimeout cfg div tick_period + 1) * tick_period
        \<le> int (length ticks) * tick_period"
      using tick_period_pos by (simp add: mult_right_mono)
    moreover have "IdleTimeout cfg < (IdleTimeout cfg div tick_period + 1) * tick_period"
      by (rule div_bounds(2) [OF tick_period_pos])
    moreover have "start + int (length ticks) * tick_period \<le> last ticks"
      using assms(4) ne by (rule ticker_last)
    ultimately have "created + IdleTimeout cfg < last ticks"
      using assms(3) by linarith
    moreover have "last ticks \<in> set ticks"
      using ne by simp
    ultimately have "\<exists>now \<in> set ticks. created + IdleTimeout cfg < now"
      by blast
    then show "idle_watch ticks s = Close s"
      by (simp add: w)
  qed
  have period: "tick_period = 10000000000"
    by (simp add: tick_period_def Second_def)
  show ?thesis
    using w [of ticks] ge early enough period s(3,4,5) Close_first(1) [OF s(4)]
    by (simp add: Done_def lifecycle_def)
qed

lemma New_session50: "New cfg50 False True 0 = Inr session50"
  by (simp add: New_def cfg50_def session50_def)

theorem idle_shutdown_counterexample:
  "New cfg50 False True 0 = Inr session50 \<and>
   ticker (14 * Millisecond) [10014 * Millisecond, 20014 * Millisecond] \<and>
   takeWhile (\<lambda>now. now \<le> 120 * Millisecond) [10014 * Millisecond, 20014 * Millisecond] = [] \<and>
   idle_watch [] session50 = session50 \<and> \<not> Done session50 \<and> cmd session50 = Running \<and>
   \<not> Done (run [OpReadPTY (9990 * Millisecond) (Some ''x''), OpIdleTick (10014 * Millisecond)]
     session50)"
proof -
  have "ticker (14 * Millisecond) [10014 * Millisecond, 20014 * Millisecond]"
    by (simp add: tick_period_def Second_def Millisecond_def)
  moreover have
    "takeWhile (\<lambda>now. now \<le> 120 * Millisecond) [10014 * Millisecond, 20014 * Millisecond] = []"
    by (simp add: Millisecond_def)
  moreover have "idle_watch [] session50 = session50"
    by (simp add: idle_watch_def)
  moreover have "\<not> Done session50" "cmd session50 = Running"
    by (simp_all add: Done_def session50_def)
  moreover have
    "\<not> Done (run [OpReadPTY (9990 * Millisecond) (Some ''x''), OpIdleTick (10014 * Millisecond)]
       session50)"
    by (simp add: Done_def session50_def readPTY_step_def idleChecker_tick_def touchActivity_def
        broadcast_def emit_def Let_def Second_def Millisecond_def)
  ultimately show ?thesis
    using New_session50 by simp
qed

theorem idle_shutdown_witness:
  "New cfg50 False True 0 = Inr session50 \<and> 0 < IdleTimeout cfg50 \<and>
   ticker (14 * Millisecond) [10014 * Millisecond, 20014 * Millisecond] \<and>
   idle_watch [10014 * Millisecond, 20014 * Millisecond] session50 = Close session50 \<and>
   idle_watch [10014 * Millisecond] session50 = Close session50 \<and>
   Done (Close session50) \<and> cmd (Close session50) = Reaped"
proof -
  have t2: "ticker (14 * Millisecond) [10014 * Millisecond, 20014 * Millisecond]"
    and t1: "ticker (14 * Millisecond) [10014 * Millisecond]"
    by (simp_all add: tick_period_def Second_def Millisecond_def)
  have T: "0 < IdleTimeout cfg50"
    by (simp add: cfg50_def Millisecond_def)
  have st: "(0::int) \<le> 14 * Millisecond"
    by (simp add: Millisecond_def)
  show ?thesis
    using idle_shutdown [OF New_session50 T st t2, of 0]
      idle_shutdown [OF New_session50 T st t1, of 0] New_session50 T t2
    by (simp add: cfg50_def Millisecond_def)
qed

text \<open>A timeout of ten seconds: the first tick, handled 14 ms after it is due, finds more
  than ten seconds gone and closes the session.\<close>

lemma idle_first_tick:
  "idle_watch [10014 * Millisecond] (session50\<lparr>idleTimeout := 10 * Second\<rparr>)
     = Close (session50\<lparr>idleTimeout := 10 * Second\<rparr>)"
  by (simp add: idle_watch_def idleChecker_tick_def Let_def session50_def Second_def
      Millisecond_def)

subsection \<open>UTF-8: decoding and encoding a rune\<close>

text \<open>The five outcomes of \<open>DecodeRuneInString\<close> on a string that is not empty.\<close>

lemma DecodeRune_outcomes:
  assumes "s \<noteq> []" and "DecodeRuneInString s = (c, n)"
  defines "s0 \<equiv> of_char (s ! 0) :: nat" and "s1 \<equiv> of_char (s ! 1) :: nat"
    and "s2 \<equiv> of_char (s ! 2) :: nat" and "s3 \<equiv> of_char (s ! 3) :: nat"
  shows "(n = 1 \<and> s0 < 0x80 \<and> c = s0) \<or>
         (n = 1 \<and> 0x80 \<le> s0 \<and> c = RuneError) \<or>
         (n = 2 \<and> 2 \<le> length s \<and> 0xC2 \<le> s0 \<and> s0 < 0xE0 \<and> cont s1 \<and>
            c = s0 mod 32 * 64 + s1 mod 64) \<or>
         (n = 3 \<and> 3 \<le> length s \<and> 0xE0 \<le> s0 \<and> s0 < 0xF0 \<and>
            accept_lo s0 \<le> s1 \<and> s1 \<le> accept_hi s0 \<and> cont s2 \<and>
            c = s0 mod 16 * 4096 + s1 mod 64 * 64 + s2 mod 64) \<or>
         (n = 4 \<and> 4 \<le> length s \<and> 0xF0 \<le> s0 \<and> s0 \<le> 0xF4 \<and>
            accept_lo s0 \<le> s1 \<and> s1 \<le> accept_hi s0 \<and> cont s2 \<and> cont s3 \<and>
            c = s0 mod 8 * 262144 + s1 mod 64 * 4096 + s2 mod 64 * 64 + s3 mod 64)"
proof -
  have l: "1 \<le> length s"
    using assms(1) by (cases s) auto
  show ?thesis
    using assms(2) l
    unfolding DecodeRuneInString_def Let_def rune_size_def s0_def s1_def s2_def s3_def cont_def
    by (simp add: accept_lo_def accept_hi_def split: if_splits)
qed

lemma off_mod:
  fixes a k m :: nat
  assumes "k * m \<le> a" and "a < k * m + m"
  shows "a mod m = a - k * m"
proof -
  have "a div m = k"
    using assms by (intro div_nat_eqI) (simp_all add: mult.commute)
  then show ?thesis
    by (metis minus_mult_div_eq_mod mult.commute)
qed

lemma low_digit:
  fixes q z m :: nat
  assumes "z < m"
  shows "(q * m + z) mod m = z" and "(q * m + z) div m = q"
  using assms by simp_all

lemma enc2':
  fixes x y :: nat
  assumes "2 \<le> x" "x < 32" "y < 64"
  shows "EncodeRune (x * 64 + y) = [char_of (0xC0 + x), char_of (0x80 + y)]"
proof -
  define r where "r = x * 64 + y"
  have h: "\<not> r < 0x80" "r < 0x800"
    using assms unfolding r_def by linarith+
  have d: "r div 64 = x" "r mod 64 = y"
    unfolding r_def using low_digit [OF assms(3), of x] by simp_all
  show ?thesis
    unfolding r_def [symmetric] EncodeRune_def by (simp only: h d if_True if_False)
qed

lemma enc3':
  fixes x y z :: nat
  assumes "x < 16" "y < 64" "z < 64" "x = 0 \<longrightarrow> 32 \<le> y" "x = 13 \<longrightarrow> y < 32"
  shows "EncodeRune (x * 4096 + y * 64 + z)
           = [char_of (0xE0 + x), char_of (0x80 + y), char_of (0x80 + z)]"
proof -
  define r where "r = x * 4096 + y * 64 + z"
  have r: "r = (x * 64 + y) * 64 + z"
    by (simp add: r_def)
  have h: "\<not> r < 0x80" "\<not> r < 0x800" "r < 0x10000"
    using assms unfolding r_def by linarith+
  have ns: "\<not> (0x10FFFF < r \<or> 0xD800 \<le> r \<and> r \<le> 0xDFFF)"
  proof (cases "x = 13")
    case True
    with assms show ?thesis unfolding r_def by simp
  next
    case False
    then consider "x \<le> 12" | "14 \<le> x" by linarith
    then show ?thesis
      using assms unfolding r_def by cases linarith+
  qed
  have d1: "r div 64 = x * 64 + y" "r mod 64 = z"
    unfolding r using low_digit [OF assms(3), of "x * 64 + y"] by simp_all
  have d2: "(x * 64 + y) mod 64 = y" "(x * 64 + y) div 64 = x"
    using low_digit [OF assms(2), of x] by simp_all
  have "r div 4096 = r div 64 div 64"
    by (simp add: div_mult2_eq)
  then have d3: "r div 4096 = x"
    by (simp only: d1 d2)
  have d4: "r div 64 mod 64 = y"
    by (simp only: d1 d2)
  show ?thesis
    unfolding r_def [symmetric] EncodeRune_def
    by (simp only: h ns d1(2) d3 d4 if_True if_False)
qed

lemma enc4':
  fixes x y z w :: nat
  assumes "x \<le> 4" "y < 64" "z < 64" "w < 64" "x = 0 \<longrightarrow> 16 \<le> y" "x = 4 \<longrightarrow> y < 16"
  shows "EncodeRune (x * 262144 + y * 4096 + z * 64 + w)
           = [char_of (0xF0 + x), char_of (0x80 + y), char_of (0x80 + z), char_of (0x80 + w)]"
proof -
  define r where "r = x * 262144 + y * 4096 + z * 64 + w"
  have r: "r = ((x * 64 + y) * 64 + z) * 64 + w"
    by (simp add: r_def)
  have lo: "0x10000 \<le> r"
    using assms unfolding r_def by (cases "x = 0") linarith+
  have hi: "r \<le> 0x10FFFF"
    using assms unfolding r_def by (cases "x = 4") linarith+
  have h: "\<not> r < 0x80" "\<not> r < 0x800" "\<not> r < 0x10000"
    using lo by linarith+
  have ns: "\<not> (0x10FFFF < r \<or> 0xD800 \<le> r \<and> r \<le> 0xDFFF)"
    using lo hi by linarith
  have d1: "r div 64 = (x * 64 + y) * 64 + z" "r mod 64 = w"
    unfolding r using low_digit [OF assms(4), of "(x * 64 + y) * 64 + z"] by simp_all
  have d2: "((x * 64 + y) * 64 + z) div 64 = x * 64 + y" "((x * 64 + y) * 64 + z) mod 64 = z"
    using low_digit [OF assms(3), of "x * 64 + y"] by simp_all
  have d3: "(x * 64 + y) mod 64 = y" "(x * 64 + y) div 64 = x"
    using low_digit [OF assms(2), of x] by simp_all
  have "r div 4096 = r div 64 div 64"
    by (simp add: div_mult2_eq)
  then have e1: "r div 4096 = x * 64 + y"
    by (simp only: d1 d2)
  have "r div 262144 = r div 64 div 64 div 64"
    by (simp add: div_mult2_eq)
  then have e2: "r div 262144 = x"
    by (simp only: d1 d2 d3)
  have e3: "r div 4096 mod 64 = y" "r div 64 mod 64 = z"
    by (simp_all only: e1 d1 d2 d3)
  show ?thesis
    unfolding r_def [symmetric] EncodeRune_def
    by (simp only: h ns d1(2) e2 e3 if_True if_False)
qed

lemma take_1: "1 \<le> length s \<Longrightarrow> take 1 s = [s ! 0]"
  by (cases s) auto

lemma take_2: "2 \<le> length s \<Longrightarrow> take 2 s = [s ! 0, s ! 1]"
  by (cases s; cases "tl s") auto

lemma take_3: "3 \<le> length s \<Longrightarrow> take 3 s = [s ! 0, s ! 1, s ! 2]"
  by (cases s; cases "tl s"; cases "tl (tl s)") auto

lemma take_4: "4 \<le> length s \<Longrightarrow> take 4 s = [s ! 0, s ! 1, s ! 2, s ! 3]"
  by (cases s; cases "tl s"; cases "tl (tl s)"; cases "tl (tl (tl s))") auto

lemma cont_mod: "cont b \<Longrightarrow> b mod 64 = b - 0x80 \<and> b - 0x80 < 64 \<and> 0x80 + (b - 0x80) = b"
  using off_mod [of 2 64 b] by (simp add: cont_def)

lemma Encode_Decode:
  assumes "s \<noteq> []" and "DecodeRuneInString s = (c, n)" and "\<not> (c = RuneError \<and> n = 1)"
  shows "EncodeRune c = take n s \<and> 1 \<le> n \<and> n \<le> length s"
proof -
  define s0 s1 s2 s3 :: nat where
    "s0 = of_char (s ! 0)" and "s1 = of_char (s ! 1)" and "s2 = of_char (s ! 2)"
    and "s3 = of_char (s ! 3)"
  have ch: "char_of s0 = s ! 0" "char_of s1 = s ! 1" "char_of s2 = s ! 2" "char_of s3 = s ! 3"
    by (simp_all add: s0_def s1_def s2_def s3_def)
  have l: "1 \<le> length s"
    using assms(1) by (cases s) auto
  consider
      (one) "n = 1" "s0 < 0x80" "c = s0"
    | (two) "n = 2" "2 \<le> length s" "0xC2 \<le> s0" "s0 < 0xE0" "cont s1"
        "c = s0 mod 32 * 64 + s1 mod 64"
    | (three) "n = 3" "3 \<le> length s" "0xE0 \<le> s0" "s0 < 0xF0"
        "accept_lo s0 \<le> s1" "s1 \<le> accept_hi s0" "cont s2"
        "c = s0 mod 16 * 4096 + s1 mod 64 * 64 + s2 mod 64"
    | (four) "n = 4" "4 \<le> length s" "0xF0 \<le> s0" "s0 \<le> 0xF4"
        "accept_lo s0 \<le> s1" "s1 \<le> accept_hi s0" "cont s2" "cont s3"
        "c = s0 mod 8 * 262144 + s1 mod 64 * 4096 + s2 mod 64 * 64 + s3 mod 64"
    using DecodeRune_outcomes [OF assms(1,2)] assms(3)
    unfolding s0_def s1_def s2_def s3_def by blast
  then show ?thesis
  proof cases
    case one
    then have "EncodeRune c = [s ! 0]"
      using ch(1) by (simp add: EncodeRune_def)
    with one l take_1 [of s] show ?thesis
      by simp
  next
    case two
    define x y where "x = s0 - 0xC0" and "y = s1 - 0x80"
    have x: "s0 mod 32 = x" "0xC0 + x = s0" "2 \<le> x" "x < 32"
      using off_mod [of 6 32 s0] two(3,4) by (simp_all add: x_def)
    have y: "s1 mod 64 = y" "0x80 + y = s1" "y < 64"
      using cont_mod [OF two(5)] by (simp_all add: y_def)
    have "EncodeRune c = [char_of (0xC0 + x), char_of (0x80 + y)]"
      unfolding two(6) x(1) y(1) using x(3,4) y(3) by (rule enc2')
    then have "EncodeRune c = [s ! 0, s ! 1]"
      by (simp only: x(2) y(2) ch)
    then show ?thesis
      using two(1,2) by (simp add: take_2)
  next
    case three
    have c1: "cont s1"
      using three(3-6) by (auto simp: cont_def accept_lo_def accept_hi_def split: if_splits)
    define x y z where "x = s0 - 0xE0" and "y = s1 - 0x80" and "z = s2 - 0x80"
    have x: "s0 mod 16 = x" "0xE0 + x = s0" "x < 16"
      using off_mod [of 14 16 s0] three(3,4) by (simp_all add: x_def)
    have y: "s1 mod 64 = y" "0x80 + y = s1" "y < 64"
      using cont_mod [OF c1] by (simp_all add: y_def)
    have z: "s2 mod 64 = z" "0x80 + z = s2" "z < 64"
      using cont_mod [OF three(7)] by (simp_all add: z_def)
    have b: "x = 0 \<longrightarrow> 32 \<le> y" "x = 13 \<longrightarrow> y < 32"
      using three(3-6) unfolding x_def y_def
      by (auto simp: accept_lo_def accept_hi_def split: if_splits)
    have "EncodeRune c = [char_of (0xE0 + x), char_of (0x80 + y), char_of (0x80 + z)]"
      unfolding three(8) x(1) y(1) z(1) using x(3) y(3) z(3) b by (rule enc3')
    then have "EncodeRune c = [s ! 0, s ! 1, s ! 2]"
      by (simp only: x(2) y(2) z(2) ch)
    then show ?thesis
      using three(1,2) by (simp add: take_3)
  next
    case four
    have c1: "cont s1"
      using four(3-6) by (auto simp: cont_def accept_lo_def accept_hi_def split: if_splits)
    define x y z w where "x = s0 - 0xF0" and "y = s1 - 0x80" and "z = s2 - 0x80"
      and "w = s3 - 0x80"
    have x: "s0 mod 8 = x" "0xF0 + x = s0" "x \<le> 4"
      using off_mod [of 30 8 s0] four(3,4) by (simp_all add: x_def)
    have y: "s1 mod 64 = y" "0x80 + y = s1" "y < 64"
      using cont_mod [OF c1] by (simp_all add: y_def)
    have z: "s2 mod 64 = z" "0x80 + z = s2" "z < 64"
      using cont_mod [OF four(7)] by (simp_all add: z_def)
    have w: "s3 mod 64 = w" "0x80 + w = s3" "w < 64"
      using cont_mod [OF four(8)] by (simp_all add: w_def)
    have b: "x = 0 \<longrightarrow> 16 \<le> y" "x = 4 \<longrightarrow> y < 16"
      using four(3-6) unfolding x_def y_def
      by (auto simp: accept_lo_def accept_hi_def split: if_splits)
    have "EncodeRune c = [char_of (0xF0 + x), char_of (0x80 + y), char_of (0x80 + z),
            char_of (0x80 + w)]"
      unfolding four(9) x(1) y(1) z(1) w(1) using x(3) y(3) z(3) w(3) b by (rule enc4')
    then have "EncodeRune c = [s ! 0, s ! 1, s ! 2, s ! 3]"
      by (simp only: x(2) y(2) z(2) w(2) ch)
    then show ?thesis
      using four(1,2) by (simp add: take_4)
  qed
qed

lemma DecodeRune_take_UTFMax: "DecodeRuneInString (take UTFMax s) = DecodeRuneInString s"
proof (cases "length s \<le> 4")
  case True
  then show ?thesis by (simp add: UTFMax_def)
next
  case False
  then have l: "4 \<le> length s" by simp
  have t: "take UTFMax s = [s ! 0, s ! 1, s ! 2, s ! 3]"
    using take_4 [OF l] by (simp add: UTFMax_def)
  have ne: "s \<noteq> []"
    using l by auto
  show ?thesis
    unfolding t using l ne
    by (simp add: DecodeRuneInString_def Let_def rune_size_def)
qed

lemma DecodeRune_prefix:
  assumes "s \<noteq> []" and "DecodeRuneInString s = (c, n)" and "\<not> (c = RuneError \<and> n = 1)"
  shows "DecodeRuneInString (take n s @ r) = (c, n)"
proof -
  have n: "1 \<le> n" "n \<le> length s"
    using Encode_Decode [OF assms] by simp_all
  have nth: "(take n s @ r) ! i = s ! i" if "i < n" for i
    using that n by (simp add: nth_append)
  have len: "n \<le> length (take n s @ r)" "take n s @ r \<noteq> []" "s \<noteq> []"
    using n assms(1) by auto
  consider
      (one) "n = 1" "of_char (s ! 0) < (0x80::nat)" "c = of_char (s ! 0)"
    | (two) "n = 2" "0xC2 \<le> (of_char (s ! 0) :: nat)" "(of_char (s ! 0) :: nat) < 0xE0"
        "cont (of_char (s ! 1))" "c = of_char (s ! 0) mod 32 * 64 + of_char (s ! 1) mod 64"
    | (three) "n = 3" "0xE0 \<le> (of_char (s ! 0) :: nat)" "(of_char (s ! 0) :: nat) < 0xF0"
        "accept_lo (of_char (s ! 0)) \<le> of_char (s ! 1)"
        "of_char (s ! 1) \<le> accept_hi (of_char (s ! 0))" "cont (of_char (s ! 2))"
        "c = of_char (s ! 0) mod 16 * 4096 + of_char (s ! 1) mod 64 * 64 + of_char (s ! 2) mod 64"
    | (four) "n = 4" "0xF0 \<le> (of_char (s ! 0) :: nat)" "(of_char (s ! 0) :: nat) \<le> 0xF4"
        "accept_lo (of_char (s ! 0)) \<le> of_char (s ! 1)"
        "of_char (s ! 1) \<le> accept_hi (of_char (s ! 0))" "cont (of_char (s ! 2))"
        "cont (of_char (s ! 3))"
        "c = of_char (s ! 0) mod 8 * 262144 + of_char (s ! 1) mod 64 * 4096
             + of_char (s ! 2) mod 64 * 64 + of_char (s ! 3) mod 64"
    using DecodeRune_outcomes [OF assms(1,2)] assms(3) by blast
  then show ?thesis
  proof cases
    case one
    then show ?thesis
      using len nth [of 0]
      by (simp add: DecodeRuneInString_def Let_def)
  next
    case two
    then show ?thesis
      using len nth [of 0] nth [of 1]
      by (simp add: DecodeRuneInString_def Let_def rune_size_def cont_def accept_lo_def
          accept_hi_def)
  next
    case three
    then show ?thesis
      using len nth [of 0] nth [of 1] nth [of 2]
      by (simp add: DecodeRuneInString_def Let_def rune_size_def cont_def)
  next
    case four
    then show ?thesis
      using len nth [of 0] nth [of 1] nth [of 2] nth [of 3]
      by (simp add: DecodeRuneInString_def Let_def rune_size_def cont_def)
  qed
qed

subsection \<open>JSON strings: unquoting what was quoted\<close>

lemma hexval_hex: "\<forall>k<16. hexval (hex ! k) = Some k"
  by (simp add: eval_nat_numeral All_less_Suc hex_def hexval_def)

lemma hexval_digits:
  "hexval (CHR ''0'') = Some 0" "hexval (CHR ''2'') = Some 2" "hexval (CHR ''f'') = Some 15"
  "hexval (CHR ''d'') = Some 13"
  by (simp_all add: hexval_def)

lemma getu4_escape:
  assumes "hexval h1 = Some a" "hexval h2 = Some b" "hexval h3 = Some c" "hexval h4 = Some d"
  shows "getu4 (CHR 0x5C # CHR ''u'' # h1 # h2 # h3 # h4 # r) = Some (a * 4096 + b * 256 + c * 16 + d)"
  using assms by (simp add: getu4_def)

lemma unquote_end: "unquote [CHR 0x22] = Some []"
  by (subst unquote.simps) simp

lemma unquote_plain:
  assumes "0x20 \<le> (of_char c :: nat)" "(of_char c :: nat) < 0x80" "c \<noteq> CHR 0x22" "c \<noteq> CHR 0x5C"
  shows "unquote (c # cs) = map_option ((#) c) (unquote cs)"
  using assms by (subst unquote.simps [of "c # cs"]) simp

lemma unquote_simple:
  assumes "simple_escape e = Some b" "e \<noteq> CHR ''u''"
  shows "unquote (CHR 0x5C # e # cs) = map_option ((#) b) (unquote cs)"
  using assms by (subst unquote.simps [of "CHR 0x5C # e # cs"]) simp

lemma unquote_u:
  assumes "getu4 (CHR 0x5C # CHR ''u'' # h1 # h2 # h3 # h4 # cs) = Some rr" "\<not> IsSurrogate rr"
  shows "unquote (CHR 0x5C # CHR ''u'' # h1 # h2 # h3 # h4 # cs)
           = map_option ((@) (EncodeRune rr)) (unquote cs)"
  using assms
  by (subst unquote.simps [of "CHR 0x5C # CHR ''u'' # h1 # h2 # h3 # h4 # cs"]) simp

lemma unquote_multi:
  assumes "0x80 \<le> (of_char c :: nat)" "DecodeRuneInString (c # cs) = (rr, n)"
  shows "unquote (c # cs) = map_option ((@) (EncodeRune rr)) (unquote (drop n (c # cs)))"
proof -
  have "c \<noteq> CHR 0x22" "c \<noteq> CHR 0x5C"
    using assms(1) by auto
  then show ?thesis
    using assms by (subst unquote.simps [of "c # cs"]) simp
qed

lemma appendString_Nil: "appendString [] = []"
  by (subst appendString.simps) simp

lemma appendString_ascii:
  assumes "(of_char b :: nat) < 0x80"
  shows "appendString (b # bs) =
           (if htmlSafeSet (of_char b) then [b] else escape_byte b) @ appendString bs"
  using assms by (subst appendString.simps [of "b # bs"]) simp

lemma appendString_multi:
  assumes "0x80 \<le> (of_char b :: nat)" "DecodeRuneInString (b # bs) = (c, n)"
  shows "appendString (b # bs) =
           (if c = RuneError \<and> n = 1 then
              [CHR 0x5C, CHR ''u'', CHR ''f'', CHR ''f'', CHR ''f'', CHR ''d'']
            else if c = 0x2028 \<or> c = 0x2029 then
              [CHR 0x5C, CHR ''u'', CHR ''2'', CHR ''0'', CHR ''2'', hex ! (c mod 16)]
            else take n (b # bs)) @ appendString (drop n (b # bs))"
  using assms
  by (subst appendString.simps [of "b # bs"]) (simp add: DecodeRune_take_UTFMax)

lemma replace_invalid_Nil: "replace_invalid [] = []"
  by (subst replace_invalid.simps) simp

lemma replace_invalid_Cons:
  assumes "DecodeRuneInString (b # bs) = (c, n)"
  shows "replace_invalid (b # bs) =
           (if c = RuneError \<and> n = 1 then [CHR 0xEF, CHR 0xBF, CHR 0xBD]
            else take n (b # bs)) @ replace_invalid (drop n (b # bs))"
  using assms by (subst replace_invalid.simps [of "b # bs"]) auto

lemma EncodeRune_RuneError: "EncodeRune RuneError = [CHR 0xEF, CHR 0xBF, CHR 0xBD]"
proof -
  have "DecodeRuneInString [CHR 0xEF, CHR 0xBF, CHR 0xBD] = (RuneError, 3)"
    by (simp add: DecodeRuneInString_def Let_def rune_size_def accept_lo_def accept_hi_def
        RuneError_def)
  then show ?thesis
    using Encode_Decode [of "[CHR 0xEF, CHR 0xBF, CHR 0xBD]" RuneError 3] by simp
qed

lemma unquote_escape_byte:
  assumes a: "(of_char b :: nat) < 0x80" and nh: "\<not> htmlSafeSet (of_char b)"
  shows "unquote (escape_byte b @ r) = map_option ((#) b) (unquote r)"
proof -
  consider (q) "b = CHR 0x5C \<or> b = CHR 0x22"
    | (bs) "b = CHR 0x08" | (ff) "b = CHR 0x0C" | (nl) "b = CHR 0x0A" | (cr) "b = CHR 0x0D"
    | (tab) "b = CHR 0x09"
    | (other) "b \<noteq> CHR 0x5C" "b \<noteq> CHR 0x22" "b \<noteq> CHR 0x08" "b \<noteq> CHR 0x0C" "b \<noteq> CHR 0x0A"
        "b \<noteq> CHR 0x0D" "b \<noteq> CHR 0x09"
    by blast
  then show ?thesis
  proof cases
    case q
    then have "escape_byte b = [CHR 0x5C, b]" "simple_escape b = Some b" "b \<noteq> CHR ''u''"
      by (auto simp: escape_byte_def simple_escape_def)
    then show ?thesis
      using unquote_simple [of b b r] by simp
  next
    case bs
    then show ?thesis
      using unquote_simple [of "CHR ''b''" b r] by (simp add: escape_byte_def simple_escape_def)
  next
    case ff
    then show ?thesis
      using unquote_simple [of "CHR ''f''" b r] by (simp add: escape_byte_def simple_escape_def)
  next
    case nl
    then show ?thesis
      using unquote_simple [of "CHR ''n''" b r] by (simp add: escape_byte_def simple_escape_def)
  next
    case cr
    then show ?thesis
      using unquote_simple [of "CHR ''r''" b r] by (simp add: escape_byte_def simple_escape_def)
  next
    case tab
    then show ?thesis
      using unquote_simple [of "CHR ''t''" b r] by (simp add: escape_byte_def simple_escape_def)
  next
    case other
    define ob where "ob = (of_char b :: nat)"
    have e: "escape_byte b = [CHR 0x5C, CHR ''u'', CHR ''0'', CHR ''0'', hex ! (ob div 16),
        hex ! (ob mod 16)]"
      using other by (simp add: escape_byte_def ob_def)
    have "ob div 16 < 16" "ob mod 16 < 16"
      using a by (simp_all add: ob_def)
    then have h: "hexval (hex ! (ob div 16)) = Some (ob div 16)"
      "hexval (hex ! (ob mod 16)) = Some (ob mod 16)"
      using hexval_hex by simp_all
    have "getu4 (CHR 0x5C # CHR ''u'' # CHR ''0'' # CHR ''0'' # hex ! (ob div 16)
             # hex ! (ob mod 16) # r)
          = Some (0 * 4096 + 0 * 256 + ob div 16 * 16 + ob mod 16)"
      using hexval_digits(1) hexval_digits(1) h by (rule getu4_escape)
    then have g: "getu4 (CHR 0x5C # CHR ''u'' # CHR ''0'' # CHR ''0'' # hex ! (ob div 16)
             # hex ! (ob mod 16) # r) = Some ob"
      by simp
    have ns: "\<not> IsSurrogate ob"
      using a by (simp add: IsSurrogate_def ob_def)
    have "EncodeRune ob = [b]"
      using a by (simp add: EncodeRune_def ob_def)
    moreover have "(@) [b] = (#) b"
      by (simp add: fun_eq_iff)
    ultimately show ?thesis
      using unquote_u [OF g ns] by (simp add: e)
  qed
qed

lemma unquote_appendString:
  "unquote (appendString s @ [CHR 0x22]) = Some (replace_invalid s)"
proof (induction s rule: length_induct)
  case (1 s)
  show ?case
  proof (cases s)
    case Nil
    then show ?thesis
      by (simp add: appendString_Nil unquote_end replace_invalid_Nil)
  next
    case (Cons b bs)
    obtain c n where d: "DecodeRuneInString (b # bs) = (c, n)"
      by (cases "DecodeRuneInString (b # bs)")
    have n: "1 \<le> n" "n \<le> length (b # bs)"
      using DecodeRuneInString_width [of "b # bs"] d by simp_all
    have IH: "unquote (appendString (drop n (b # bs)) @ [CHR 0x22])
                = Some (replace_invalid (drop n (b # bs)))"
      using "1.IH" n Cons by simp
    show ?thesis
    proof (cases "(of_char b :: nat) < 0x80")
      case True
      then have cn: "c = of_char b" "n = 1"
        using d by (simp_all add: DecodeRuneInString_def)
      have ri: "replace_invalid (b # bs) = b # replace_invalid bs"
        using replace_invalid_Cons [OF d] True cn by (simp add: RuneError_def)
      have as: "appendString (b # bs) =
          (if htmlSafeSet (of_char b) then [b] else escape_byte b) @ appendString bs"
        using True by (rule appendString_ascii)
      have IH1: "unquote (appendString bs @ [CHR 0x22]) = Some (replace_invalid bs)"
        using IH cn by simp
      show ?thesis
      proof (cases "htmlSafeSet (of_char b)")
        case safe: True
        then have "0x20 \<le> (of_char b :: nat)" "b \<noteq> CHR 0x22" "b \<noteq> CHR 0x5C"
          by (auto simp: htmlSafeSet_def)
        then have "unquote (b # appendString bs @ [CHR 0x22])
                     = map_option ((#) b) (unquote (appendString bs @ [CHR 0x22]))"
          using True by (intro unquote_plain) simp_all
        then show ?thesis
          using safe by (simp add: Cons as ri IH1)
      next
        case False
        then show ?thesis
          using unquote_escape_byte [OF True False, of "appendString bs @ [CHR 0x22]"]
          by (simp add: Cons as ri IH1)
      qed
    next
      case False
      then have hi: "0x80 \<le> (of_char b :: nat)" by simp
      note as = appendString_multi [OF hi d]
      note ri = replace_invalid_Cons [OF d]
      let ?R = "appendString (drop n (b # bs)) @ [CHR 0x22]"
      show ?thesis
      proof (cases "c = RuneError \<and> n = 1")
        case True
        have g: "getu4 (CHR 0x5C # CHR ''u'' # CHR ''f'' # CHR ''f'' # CHR ''f'' # CHR ''d'' # ?R)
                   = Some (15 * 4096 + 15 * 256 + 15 * 16 + 13)"
          using hexval_digits(3) hexval_digits(3) hexval_digits(3) hexval_digits(4)
          by (rule getu4_escape)
        have r: "(15 * 4096 + 15 * 256 + 15 * 16 + 13 :: nat) = RuneError"
          by (simp add: RuneError_def)
        have ns: "\<not> IsSurrogate RuneError"
          by (simp add: IsSurrogate_def RuneError_def)
        have "unquote (CHR 0x5C # CHR ''u'' # CHR ''f'' # CHR ''f'' # CHR ''f'' # CHR ''d'' # ?R)
                = map_option ((@) (EncodeRune RuneError)) (unquote ?R)"
          using g ns unfolding r by (rule unquote_u)
        moreover have "appendString (b # bs) =
            [CHR 0x5C, CHR ''u'', CHR ''f'', CHR ''f'', CHR ''f'', CHR ''d''] @ appendString bs"
          using as True by simp
        moreover have "replace_invalid (b # bs) = [CHR 0xEF, CHR 0xBF, CHR 0xBD] @ replace_invalid bs"
          using ri True by simp
        moreover have "unquote (appendString bs @ [CHR 0x22]) = Some (replace_invalid bs)"
          using IH True by simp
        moreover have "?R = appendString bs @ [CHR 0x22]"
          using True by simp
        ultimately show ?thesis
          by (simp add: Cons EncodeRune_RuneError)
      next
        case valid: False
        have enc: "EncodeRune c = take n (b # bs)"
          using Encode_Decode [OF _ d valid] by simp
        have ri': "replace_invalid (b # bs) = take n (b # bs) @ replace_invalid (drop n (b # bs))"
          using ri valid by simp
        have "unquote (appendString (b # bs) @ [CHR 0x22])
                = Some (take n (b # bs) @ replace_invalid (drop n (b # bs)))"
        proof (cases "c = 0x2028 \<or> c = 0x2029")
          case True
          then have m: "c mod 16 < 16" "2 * 4096 + 0 * 256 + 2 * 16 + c mod 16 = c"
            by auto
          have g: "getu4 (CHR 0x5C # CHR ''u'' # CHR ''2'' # CHR ''0'' # CHR ''2''
                     # hex ! (c mod 16) # ?R)
                   = Some (2 * 4096 + 0 * 256 + 2 * 16 + c mod 16)"
            using hexval_digits(2) hexval_digits(1) hexval_digits(2) hexval_hex m(1)
            by (intro getu4_escape) simp_all
          have ns: "\<not> IsSurrogate c"
            using True by (auto simp: IsSurrogate_def)
          have u: "unquote (CHR 0x5C # CHR ''u'' # CHR ''2'' # CHR ''0'' # CHR ''2''
                     # hex ! (c mod 16) # ?R)
                = map_option ((@) (EncodeRune c)) (unquote ?R)"
            using g ns unfolding m(2) by (rule unquote_u)
          have "appendString (b # bs) @ [CHR 0x22] =
                  CHR 0x5C # CHR ''u'' # CHR ''2'' # CHR ''0'' # CHR ''2'' # hex ! (c mod 16) # ?R"
            using as True valid by simp
          then show ?thesis
            by (simp only: u IH enc option.map)
        next
          case False
          have pre: "DecodeRuneInString (take n (b # bs) @ ?R) = (c, n)"
            using DecodeRune_prefix [OF _ d valid] by simp
          obtain m where nm: "n = Suc m"
            using n(1) by (cases n) auto
          have tk: "take n (b # bs) @ ?R = b # (take m bs @ ?R)"
            by (simp add: nm)
          have dr: "drop n (b # (take m bs @ ?R)) = ?R"
            using n(2) by (simp add: nm)
          have "unquote (b # (take m bs @ ?R))
                  = map_option ((@) (EncodeRune c)) (unquote (drop n (b # (take m bs @ ?R))))"
            using hi pre unfolding tk by (rule unquote_multi)
          then have "unquote (b # (take m bs @ ?R))
                  = map_option ((@) (EncodeRune c)) (unquote ?R)"
            by (simp only: dr)
          then have u: "unquote (take n (b # bs) @ ?R)
                  = Some (take n (b # bs) @ replace_invalid (drop n (b # bs)))"
            by (simp only: tk IH enc option.map)
          have "appendString (b # bs) @ [CHR 0x22] = take n (b # bs) @ ?R"
            using as False valid by simp
          then show ?thesis
            by (simp only: u)
        qed
        then show ?thesis
          by (simp only: Cons ri')
      qed
    qed
  qed
qed

lemma isSpace_quote: "\<not> isSpace (CHR 0x22)"
  by (simp add: isSpace_def)

lemma Unmarshal_Marshal: "Unmarshal_string (Marshal_string s) = Some (replace_invalid s)"
proof -
  have "trim (Marshal_string s) = Marshal_string s"
    by (simp add: trim_def Marshal_string_def isSpace_quote)
  then show ?thesis
    by (simp add: Unmarshal_string_def Marshal_string_def unquote_appendString)
qed

lemma replace_invalid_valid: "ValidString s \<Longrightarrow> replace_invalid s = s"
proof (induction s rule: length_induct)
  case (1 s)
  show ?case
  proof (cases s)
    case Nil
    then show ?thesis by (simp add: replace_invalid_Nil)
  next
    case (Cons b bs)
    obtain c n where d: "DecodeRuneInString (b # bs) = (c, n)"
      by (cases "DecodeRuneInString (b # bs)")
    have n: "1 \<le> n"
      using DecodeRuneInString_width [of "b # bs"] d by simp
    have v: "\<not> (c = RuneError \<and> n = 1)" "ValidString (drop n (b # bs))"
      using "1.prems" d unfolding Cons
      by (subst (asm) ValidString.simps, simp split: if_splits)+
    have "replace_invalid (drop n (b # bs)) = drop n (b # bs)"
      using "1.IH" v(2) n Cons by simp
    then have "replace_invalid (b # bs) = take n (b # bs) @ drop n (b # bs)"
      using replace_invalid_Cons [OF d] v(1) by simp
    then show ?thesis
      by (simp add: Cons)
  qed
qed

lemma ValidString_Cons:
  assumes "DecodeRuneInString (b # bs) = (c, n)"
  shows "ValidString (b # bs) = (\<not> (c = RuneError \<and> n = 1) \<and> ValidString (drop n (b # bs)))"
  using assms by (subst ValidString.simps [of "b # bs"]) auto

lemma replace_invalid_longer:
  "length s \<le> length (replace_invalid s) \<and>
   (\<not> ValidString s \<longrightarrow> length s < length (replace_invalid s))"
proof (induction s rule: length_induct)
  case (1 s)
  show ?case
  proof (cases s)
    case Nil
    then show ?thesis
      by (simp add: replace_invalid_Nil ValidString.simps [of "[]"])
  next
    case (Cons b bs)
    obtain c n where d: "DecodeRuneInString (b # bs) = (c, n)"
      by (cases "DecodeRuneInString (b # bs)")
    have n: "1 \<le> n" "n \<le> length (b # bs)"
      using DecodeRuneInString_width [of "b # bs"] d by simp_all
    have sh: "length (drop n (b # bs)) < length s"
      using n Cons by simp
    have IH: "length (drop n (b # bs)) \<le> length (replace_invalid (drop n (b # bs)))"
      "\<not> ValidString (drop n (b # bs)) \<Longrightarrow>
         length (drop n (b # bs)) < length (replace_invalid (drop n (b # bs)))"
      using "1.IH" [rule_format, OF sh] by blast+
    show ?thesis
    proof (cases "c = RuneError \<and> n = 1")
      case True
      then have "length (replace_invalid (b # bs)) = 3 + length (replace_invalid (drop n (b # bs)))"
        using replace_invalid_Cons [OF d] by simp
      with IH(1) n True show ?thesis
        unfolding Cons by simp
    next
      case False
      then have "length (replace_invalid (b # bs))
                   = n + length (replace_invalid (drop n (b # bs)))"
        using replace_invalid_Cons [OF d] n by simp
      moreover have "length (b # bs) = n + length (drop n (b # bs))"
        using n by simp
      ultimately show ?thesis
        unfolding Cons using IH False ValidString_Cons [OF d] by auto
    qed
  qed
qed

lemma replace_invalid_fixed: "replace_invalid s = s \<longleftrightarrow> ValidString s"
  using replace_invalid_valid [of s] replace_invalid_longer [of s] by auto

subsection \<open>Output\<close>

text \<open>
  C5, as amended. \<open>broadcast\<close> writes to every client the \<open>output\<close> envelope whose data is
  the JSON string \<^verbatim>\<open>json.Marshal\<close> makes of the bytes read. Decoding that data gives the
  bytes back with every byte that starts no valid UTF-8 encoding replaced by the three
  bytes of U+FFFD: the original sequence comes back exactly when it is valid UTF-8, and
  only then (two different invalid bytes even have the same JSON text, so no decoder
  could tell them apart).
\<close>

theorem output_roundtrip:
  fixes data :: string
  defines "msg \<equiv> \<lparr>Type = ''output'', Data = Marshal_string data\<rparr>"
  shows "trace (broadcast data s) =
           trace s @ map (\<lambda>(i, c). ConnWrite (Conn c) (TextMessage msg)) (clients s) \<and>
         receive_output msg = Some (replace_invalid data) \<and>
         (receive_output msg = Some data) = ValidString data"
  by (simp add: msg_def broadcast_def Let_def receive_output_def Unmarshal_Marshal
      replace_invalid_fixed)

lemma DecodeRune_FF: "DecodeRuneInString [CHR 0xFF] = (RuneError, 1)"
  by (simp add: DecodeRuneInString_def)

lemma DecodeRune_FE: "DecodeRuneInString [CHR 0xFE] = (RuneError, 1)"
  by (simp add: DecodeRuneInString_def)

theorem output_roundtrip_counterexample:
  "receive_output \<lparr>Type = ''output'', Data = Marshal_string [CHR 0xFF]\<rparr>
     = Some [CHR 0xEF, CHR 0xBF, CHR 0xBD] \<and>
   receive_output \<lparr>Type = ''output'', Data = Marshal_string [CHR 0xFF]\<rparr> \<noteq> Some [CHR 0xFF] \<and>
   Marshal_string [CHR 0xFF] = Marshal_string [CHR 0xFE]"
proof -
  have ri: "replace_invalid [CHR 0xFF] = [CHR 0xEF, CHR 0xBF, CHR 0xBD]"
    using replace_invalid_Cons [OF DecodeRune_FF] by (simp add: replace_invalid_Nil)
  have "appendString [CHR 0xFF] = appendString [CHR 0xFE]"
    using appendString_multi [OF _ DecodeRune_FF] appendString_multi [OF _ DecodeRune_FE]
    by simp
  then have m: "Marshal_string [CHR 0xFF] = Marshal_string [CHR 0xFE]"
    by (simp add: Marshal_string_def)
  have u: "Unmarshal_string (Marshal_string [CHR 0xFF]) = Some [CHR 0xEF, CHR 0xBF, CHR 0xBD]"
    using ri by (simp add: Unmarshal_Marshal)
  show ?thesis
    unfolding receive_output_def using u m by simp
qed

lemma ValidString_example: "ValidString [CHR ''l'', CHR ''s'', CHR 0x0A, CHR 0xC3, CHR 0xA9]"
  by (simp add: ValidString.simps DecodeRuneInString_def Let_def rune_size_def accept_lo_def
      accept_hi_def RuneError_def)

theorem output_roundtrip_witness:
  "ValidString [CHR ''l'', CHR ''s'', CHR 0x0A, CHR 0xC3, CHR 0xA9] \<and>
   receive_output \<lparr>Type = ''output'',
       Data = Marshal_string [CHR ''l'', CHR ''s'', CHR 0x0A, CHR 0xC3, CHR 0xA9]\<rparr>
     = Some [CHR ''l'', CHR ''s'', CHR 0x0A, CHR 0xC3, CHR 0xA9]"
  using output_roundtrip [of "[CHR ''l'', CHR ''s'', CHR 0x0A, CHR 0xC3, CHR 0xA9]" session0]
    ValidString_example
  by blast

lemma Marshal_example:
  "Marshal_string [CHR ''l'', CHR ''s'', CHR 0x0A, CHR 0xC3, CHR 0xA9]
     = [CHR 0x22, CHR ''l'', CHR ''s'', CHR 0x5C, CHR ''n'', CHR 0xC3, CHR 0xA9, CHR 0x22]"
  by (simp add: Marshal_string_def appendString.simps DecodeRuneInString_def Let_def
      rune_size_def accept_lo_def accept_hi_def RuneError_def UTFMax_def htmlSafeSet_def
      escape_byte_def)

end
